theory Spec2Isabelle
  imports Complex_Main "HOL-Library.Word"
begin

unbundle bit_operations_syntax

section \<open>Identifiers (lib/id.js)\<close>

text \<open>
  An \<open>Id\<close> wraps a Node \<open>Buffer\<close>, a sequence of bytes.  The constructor accepts
  only buffers of \<open>Id.SIZE\<close> bytes; the methods below nevertheless read the buffer by
  index, and a read beyond the end of a buffer yields \<open>undefined\<close> in JavaScript,
  which is \<open>None\<close> here.
\<close>

type_synonym byte = "8 word"

datatype Id = Id (buf: "byte list")

definition SIZE :: nat where
  "SIZE = 20"

definition BIT_SIZE :: nat where
  "BIT_SIZE = SIZE * 8"

definition valid_id :: "Id \<Rightarrow> bool" where
  "valid_id x = (length (buf x) = SIZE)"

text \<open>\<open>this._buf[i]\<close>: the byte at index \<open>i\<close>, or \<open>undefined\<close>.\<close>

definition buf_at :: "Id \<Rightarrow> nat \<Rightarrow> byte option" where
  "buf_at x i = (if i < length (buf x) then Some (buf x ! i) else None)"

text \<open>The bitwise operators \<open>^\<close> and \<open>&\<close> convert \<open>undefined\<close> to 0.\<close>

definition to_int32 :: "byte option \<Rightarrow> byte" where
  "to_int32 v = (case v of None \<Rightarrow> 0 | Some b \<Rightarrow> b)"

definition xor_at :: "Id \<Rightarrow> Id \<Rightarrow> nat \<Rightarrow> byte" where
  "xor_at x y i = to_int32 (buf_at x i) XOR to_int32 (buf_at y i)"

text \<open>\<open>Id.prototype.distanceTo\<close>: a fresh buffer of \<open>SIZE\<close> bytes, the bytewise XOR.\<close>

definition distanceTo :: "Id \<Rightarrow> Id \<Rightarrow> byte list" where
  "distanceTo x other = map (xor_at x other) [0..<SIZE]"

text \<open>
  \<open>Id.prototype.compareDistance\<close>: the loop \<open>for (i = 0; i < Id.SIZE; ++i)\<close> runs over
  the indices in order and returns at the first byte where the two distances differ.
\<close>

fun compareDistance_loop :: "Id \<Rightarrow> Id \<Rightarrow> Id \<Rightarrow> nat list \<Rightarrow> int" where
  "compareDistance_loop x first second [] = 0"
| "compareDistance_loop x first second (i # is) =
     (let bt1 = xor_at x first i; bt2 = xor_at x second i
      in if bt1 > bt2 then -1
         else if bt1 < bt2 then 1
         else compareDistance_loop x first second is)"

definition compareDistance :: "Id \<Rightarrow> Id \<Rightarrow> Id \<Rightarrow> int" where
  "compareDistance x first second = compareDistance_loop x first second [0..<SIZE]"

text \<open>\<open>Id.prototype.equal\<close>: \<open>!=\<close> on two bytes, or on \<open>undefined\<close>.\<close>

definition Id_equal :: "Id \<Rightarrow> Id \<Rightarrow> bool" where
  "Id_equal x other = list_all (\<lambda>i. buf_at x i = buf_at other i) [0..<SIZE]"

text \<open>\<open>Id.prototype.at\<close>: bit \<open>i\<close>, the most significant bit of byte 0 first.\<close>

definition Id_at :: "Id \<Rightarrow> nat \<Rightarrow> bool" where
  "Id_at x i = (to_int32 (buf_at x (i div 8)) AND push_bit (7 - i mod 8) 1 > 0)"

text \<open>\<open>Id.zero\<close>.\<close>

definition Id_zero :: Id where
  "Id_zero = Id (replicate SIZE 0)"

text \<open>
  The XOR distance of the specification: the distance buffer read as an unsigned
  big-endian integer.
\<close>

fun be_nat :: "byte list \<Rightarrow> nat" where
  "be_nat [] = 0"
| "be_nat (b # bs) = unat b * 256 ^ length bs + be_nat bs"

definition xor_distance :: "Id \<Rightarrow> Id \<Rightarrow> nat" where
  "xor_distance x y = be_nat (distanceTo x y)"

section \<open>Errors\<close>

text \<open>Every \<open>throw\<close> of the source is a value; \<open>Inl\<close> carries the exception.\<close>

datatype js_error =
    Error string
  | TypeError string
  | ReferenceError string

section \<open>Contacts (lib/contact.js)\<close>

text \<open>
  The endpoint is opaque to the node.  The code uses two things of it: its
  serialisation \<open>JSON.stringify(endpoint)\<close>, which keys the endpoint map, and its
  truthiness (\<open>if(endpoint)\<close> in \<open>RoutingTable.prototype.remove\<close>).  A
  serialisation is a JSON text, or \<open>undefined\<close> for an endpoint that has none.
\<close>

datatype endpoint = Endpoint (JSON_stringify: string) (ep_truthy: bool)

record Contact =
  contact_id :: Id
  endpoint :: endpoint
  dead :: nat

definition new_Contact :: "Id \<Rightarrow> endpoint \<Rightarrow> Contact" where
  "new_Contact i e = \<lparr>contact_id = i, endpoint = e, dead = 0\<rparr>"

definition setAlive :: "Contact \<Rightarrow> bool \<Rightarrow> Contact" where
  "setAlive c alive = c\<lparr>dead := (if alive then 0 else dead c + 1)\<rparr>"

definition isAlive :: "Contact \<Rightarrow> bool" where
  "isAlive c = (dead c = 0)"

section \<open>Buckets (lib/bucket.js)\<close>

text \<open>Contacts from the oldest to the latest; \<open>refreshed\<close> is unset at first.\<close>

record Bucket =
  capacity :: nat
  prefix :: string
  store :: "Contact list"
  refreshed :: "int option"

text \<open>The constructor throws on a capacity that is not a positive number.\<close>

definition new_Bucket :: "nat \<Rightarrow> string \<Rightarrow> js_error + Bucket" where
  "new_Bucket cap pre =
     (if cap \<le> 0 then Inl (Error ''invalid bucket capacity'')
      else Inr \<lparr>capacity = cap, prefix = pre, store = [], refreshed = None\<rparr>)"

text \<open>
  \<open>Bucket.prototype.countClosestNodes\<close>: counts the stored contacts \<open>c\<close> with
  \<open>refId.compareDistance(id, c.id) > 0\<close>.
\<close>

fun Bucket_countClosestNodes_loop :: "Contact list \<Rightarrow> Id \<Rightarrow> Id \<Rightarrow> nat \<Rightarrow> nat" where
  "Bucket_countClosestNodes_loop [] i refId count = count"
| "Bucket_countClosestNodes_loop (c # cs) i refId count =
     Bucket_countClosestNodes_loop cs i refId
       (if compareDistance refId i (contact_id c) > 0 then count + 1 else count)"

definition Bucket_countClosestNodes :: "Bucket \<Rightarrow> Id \<Rightarrow> Id \<Rightarrow> nat" where
  "Bucket_countClosestNodes b i refId = Bucket_countClosestNodes_loop (store b) i refId 0"

text \<open>
  \<open>Bucket.prototype.remove\<close>: splices out the first contact whose id equals the
  given one and returns it, or returns \<open>false\<close> (\<open>None\<close>).
\<close>

fun remove_loop :: "Contact list \<Rightarrow> Id \<Rightarrow> Contact list \<times> Contact option" where
  "remove_loop [] i = ([], None)"
| "remove_loop (c # cs) i =
     (if Id_equal (contact_id c) i then (cs, Some c)
      else (case remove_loop cs i of (cs', r) \<Rightarrow> (c # cs', r)))"

definition Bucket_remove :: "Bucket \<Rightarrow> Id \<Rightarrow> Bucket \<times> Contact option" where
  "Bucket_remove b i = (case remove_loop (store b) i of (cs, r) \<Rightarrow> (b\<lparr>store := cs\<rparr>, r))"

text \<open>
  \<open>Bucket.prototype.store\<close>: removes the contact first, then refuses when the bucket
  is at capacity, else pushes the contact at the tail.  The removal stays in effect when
  the store is refused.
\<close>

definition Bucket_store :: "Bucket \<Rightarrow> Contact \<Rightarrow> Bucket \<times> bool" where
  "Bucket_store b contact =
     (let b1 = fst (Bucket_remove b (contact_id contact))
      in if length (store b1) = capacity b1 then (b1, False)
         else (b1\<lparr>store := store b1 @ [contact]\<rparr>, True))"

definition Bucket_obtain :: "Bucket \<Rightarrow> nat option \<Rightarrow> Contact list" where
  "Bucket_obtain b n =
     (let n' = (case n of None \<Rightarrow> length (store b) | Some m \<Rightarrow> m)
      in if length (store b) \<le> n' then store b else take n' (store b))"

text \<open>
  \<open>Bucket.prototype.split\<close>: each contact goes to \<open>right\<close> or \<open>left\<close> by the
  \<open>nth\<close> bit of its id; the result of the child's \<open>store\<close> is ignored.
\<close>

fun Bucket_split_loop :: "Contact list \<Rightarrow> nat \<Rightarrow> Bucket \<Rightarrow> Bucket \<Rightarrow> Bucket \<times> Bucket" where
  "Bucket_split_loop [] n l r = (l, r)"
| "Bucket_split_loop (c # cs) n l r =
     (if Id_at (contact_id c) n
      then Bucket_split_loop cs n l (fst (Bucket_store r c))
      else Bucket_split_loop cs n (fst (Bucket_store l c)) r)"

definition Bucket_split :: "Bucket \<Rightarrow> nat \<Rightarrow> Bucket \<Rightarrow> Bucket \<Rightarrow> Bucket \<times> Bucket" where
  "Bucket_split b n l r = Bucket_split_loop (store b) n l r"

text \<open>The getter \<open>oldest\<close>: \<open>null\<close> on an empty bucket.\<close>

definition Bucket_oldest :: "Bucket \<Rightarrow> Contact option" where
  "Bucket_oldest b = (case store b of [] \<Rightarrow> None | c # _ \<Rightarrow> Some c)"

section \<open>The routing table (lib/routing-table.js)\<close>

text \<open>
  The tree: a node is a \<open>Bucket\<close> or an object \<open>{left, right}\<close>.  The endpoint map
  \<open>_endpoints\<close> goes from serialised endpoints to ids.
\<close>

datatype node = Leaf Bucket | Node node node

record RoutingTable =
  rt_id :: Id
  bucketSize :: nat
  endpoints :: "string \<rightharpoonup> Id"
  root :: node

definition new_RoutingTable :: "Id \<Rightarrow> nat \<Rightarrow> js_error + RoutingTable" where
  "new_RoutingTable localId k =
     (case new_Bucket k '''' of
        Inl e \<Rightarrow> Inl e
      | Inr b \<Rightarrow> Inr \<lparr>rt_id = localId, bucketSize = k, endpoints = Map.empty, root = Leaf b\<rparr>)"

text \<open>
  \<open>_eachBucket\<close> calls \<open>cb\<close> on every bucket, the left subtree first.  The callback
  of the source updates a captured variable; here it updates an accumulator.
\<close>

fun eachBucket :: "(Bucket \<Rightarrow> 'a \<Rightarrow> 'a) \<Rightarrow> node \<Rightarrow> 'a \<Rightarrow> 'a" where
  "eachBucket cb (Leaf b) acc = cb b acc"
| "eachBucket cb (Node l r) acc = eachBucket cb r (eachBucket cb l acc)"

definition countClosestNodes :: "RoutingTable \<Rightarrow> Id \<Rightarrow> nat" where
  "countClosestNodes rt i =
     (let refId = rt_id rt
      in eachBucket (\<lambda>bucket count. count + Bucket_countClosestNodes bucket i refId) (root rt) 0)"

text \<open>
  \<open>_findBucket\<close> returns \<open>{parent, bucket, allowSplit, nth, bit, prefix}\<close>.  The
  source keeps a pointer to the parent object and later compares \<open>parent.left\<close> with
  the bucket to know which child to overwrite; the model keeps the directions taken
  from the root (\<open>path\<close>) instead, which determine both.  The loop gives up after
  \<open>BIT_SIZE\<close> steps, and the function then returns \<open>undefined\<close> (\<open>None\<close>).
  The flag \<open>allowSplit\<close> is updated before the test for a bucket, so it includes the
  bit at the bucket's own depth.
\<close>

record find_result =
  path :: "bool list"
  bucket :: Bucket
  allowSplit :: bool
  fr_nth :: nat
  fr_bit :: bool
  fr_prefix :: string

fun findBucket_loop ::
  "Id \<Rightarrow> Id \<Rightarrow> node \<Rightarrow> nat \<Rightarrow> bool \<Rightarrow> bool list \<Rightarrow> string \<Rightarrow> find_result option" where
  "findBucket_loop localId i (Leaf b) n allow pth pre =
     (if n < BIT_SIZE
      then Some \<lparr>path = pth, bucket = b,
                 allowSplit = (allow \<and> Id_at i n = Id_at localId n),
                 fr_nth = n, fr_bit = Id_at i n, fr_prefix = pre\<rparr>
      else None)"
| "findBucket_loop localId i (Node l r) n allow pth pre =
     (if n < BIT_SIZE
      then (let bit = Id_at i n;
                allow' = (allow \<and> bit = Id_at localId n)
            in findBucket_loop localId i (if bit then r else l) (n + 1) allow'
                 (pth @ [bit]) (pre @ (if bit then ''1'' else ''0'')))
      else None)"

definition findBucket :: "RoutingTable \<Rightarrow> Id \<Rightarrow> find_result option" where
  "findBucket rt i = findBucket_loop (rt_id rt) i (root rt) 0 True [] ''''"

text \<open>Overwriting the node reached by \<open>path\<close>: the root, or a child of the parent.\<close>

fun replace_at :: "bool list \<Rightarrow> node \<Rightarrow> node \<Rightarrow> node" where
  "replace_at [] new t = new"
| "replace_at (d # ds) new (Node l r) =
     (if d then Node l (replace_at ds new r) else Node (replace_at ds new l) r)"
| "replace_at (d # ds) new (Leaf b) = Leaf b"

text \<open>
  \<open>_removeId\<close>: \<open>res.bucket.remove(id)\<close>; reading \<open>bucket\<close> of \<open>undefined\<close>
  throws a \<open>TypeError\<close>.
\<close>

definition removeId :: "RoutingTable \<Rightarrow> Id \<Rightarrow> js_error + RoutingTable \<times> Contact option" where
  "removeId rt i =
     (case findBucket rt i of
        None \<Rightarrow> Inl (TypeError ''res is undefined'')
      | Some res \<Rightarrow>
          (case Bucket_remove (bucket res) i of
             (b', c) \<Rightarrow> Inr (rt\<lparr>root := replace_at (path res) (Leaf b') (root rt)\<rparr>, c)))"

text \<open>
  \<open>_addRemoveEndpoint(endpoint, id)\<close>, the id being optional.  An id that claimed
  the endpoint before, and that is not the given one, is removed from the table.
\<close>

definition addRemoveEndpoint ::
  "RoutingTable \<Rightarrow> endpoint \<Rightarrow> Id option \<Rightarrow> js_error + RoutingTable" where
  "addRemoveEndpoint rt ep i =
     (let endpointKey = JSON_stringify ep;
          oldId = endpoints rt endpointKey;
          register = (\<lambda>rt'. case i of
                         None \<Rightarrow> rt'
                       | Some i' \<Rightarrow> rt'\<lparr>endpoints := (endpoints rt')(endpointKey \<mapsto> i')\<rparr>)
      in case oldId of
           None \<Rightarrow> Inr (register rt)
         | Some old \<Rightarrow>
             if (case i of None \<Rightarrow> True | Some i' \<Rightarrow> \<not> Id_equal old i')
             then (case removeId (rt\<lparr>endpoints := (endpoints rt)(endpointKey := None)\<rparr>) old of
                     Inl e \<Rightarrow> Inl e
                   | Inr (rt', _) \<Rightarrow> Inr (register rt'))
             else Inr (register rt))"

text \<open>
  \<open>_splitAndStore\<close>: two fresh buckets take the contacts of \<open>opt.bucket\<close>, the new
  node replaces the bucket in the tree, and the contact is stored in the child chosen
  by \<open>opt.bit\<close>.  The result of that last \<open>store\<close> is returned (and ignored by the
  caller).
\<close>

definition splitAndStore ::
  "RoutingTable \<Rightarrow> Contact \<Rightarrow> find_result \<Rightarrow> js_error + RoutingTable \<times> bool" where
  "splitAndStore rt contact opt =
     (case new_Bucket (bucketSize rt) (fr_prefix opt @ ''0'') of
        Inl e \<Rightarrow> Inl e
      | Inr l0 \<Rightarrow>
     (case new_Bucket (bucketSize rt) (fr_prefix opt @ ''1'') of
        Inl e \<Rightarrow> Inl e
      | Inr r0 \<Rightarrow>
          (case Bucket_split (bucket opt) (fr_nth opt) l0 r0 of
             (l1, r1) \<Rightarrow>
               (if fr_bit opt
                then (case Bucket_store r1 contact of
                        (r2, ok) \<Rightarrow>
                          Inr (rt\<lparr>root := replace_at (path opt) (Node (Leaf l1) (Leaf r2)) (root rt)\<rparr>, ok))
                else (case Bucket_store l1 contact of
                        (l2, ok) \<Rightarrow>
                          Inr (rt\<lparr>root := replace_at (path opt) (Node (Leaf l2) (Leaf r1)) (root rt)\<rparr>, ok))))))"

text \<open>
  \<open>RoutingTable.prototype.store\<close>.  The result is \<open>null\<close> (\<open>None\<close>) or the oldest
  contact of a bucket that is full and may not split.  \<open>res.bucket.store\<close> works on the
  bucket in the tree, so its effect is written back at \<open>path\<close> whatever it returns.
\<close>

definition RoutingTable_store ::
  "RoutingTable \<Rightarrow> Contact \<Rightarrow> js_error + RoutingTable \<times> Contact option" where
  "RoutingTable_store rt contact =
     (if Id_equal (contact_id contact) (rt_id rt) then Inr (rt, None)
      else
        (case findBucket rt (contact_id contact) of
           None \<Rightarrow> Inl (TypeError ''res is undefined'')
         | Some res \<Rightarrow>
             (case Bucket_store (bucket res) contact of
                (b1, ok) \<Rightarrow>
                  (let rt1 = rt\<lparr>root := replace_at (path res) (Leaf b1) (root rt)\<rparr>
                   in if ok
                      then (case addRemoveEndpoint rt1 (endpoint contact) (Some (contact_id contact)) of
                              Inl e \<Rightarrow> Inl e
                            | Inr rt2 \<Rightarrow> Inr (rt2, None))
                      else if \<not> allowSplit res \<or> fr_nth res + 1 = BIT_SIZE
                      then Inr (rt1, Bucket_oldest b1)
                      else (case splitAndStore rt1 contact (res\<lparr>bucket := b1\<rparr>) of
                              Inl e \<Rightarrow> Inl e
                            | Inr (rt2, _) \<Rightarrow>
                                (case addRemoveEndpoint rt2 (endpoint contact) (Some (contact_id contact)) of
                                   Inl e \<Rightarrow> Inl e
                                 | Inr rt3 \<Rightarrow> Inr (rt3, None)))))))"

text \<open>\<open>storeSome\<close>: \<open>store\<close> on each contact in turn, the results dropped.\<close>

fun storeSome :: "RoutingTable \<Rightarrow> Contact list \<Rightarrow> js_error + RoutingTable" where
  "storeSome rt [] = Inr rt"
| "storeSome rt (c # cs) =
     (case RoutingTable_store rt c of
        Inl e \<Rightarrow> Inl e
      | Inr (rt', _) \<Rightarrow> storeSome rt' cs)"

text \<open>
  \<open>RoutingTable.prototype.remove\<close> takes a contact or a bare id.  The endpoint that is
  unregistered is the one of the removed contact, or else the one of the argument
  (\<open>undefined\<close> for a bare id), and only when it is truthy.
\<close>

datatype remove_arg = ByContact Contact | ById Id

definition RoutingTable_remove ::
  "RoutingTable \<Rightarrow> remove_arg \<Rightarrow> js_error + RoutingTable \<times> bool" where
  "RoutingTable_remove rt arg =
     (let i = (case arg of ByContact c \<Rightarrow> contact_id c | ById i' \<Rightarrow> i')
      in case removeId rt i of
           Inl e \<Rightarrow> Inl e
         | Inr (rt1, c) \<Rightarrow>
             (let ep = (case c of
                          Some c' \<Rightarrow> Some (endpoint c')
                        | None \<Rightarrow> (case arg of ByContact c' \<Rightarrow> Some (endpoint c') | ById _ \<Rightarrow> None))
              in case ep of
                   Some e \<Rightarrow>
                     if ep_truthy e
                     then (case addRemoveEndpoint rt1 e None of
                             Inl err \<Rightarrow> Inl err
                           | Inr rt2 \<Rightarrow> Inr (rt2, c \<noteq> None))
                     else Inr (rt1, c \<noteq> None)
                 | None \<Rightarrow> Inr (rt1, c \<noteq> None)))"

section \<open>Notions used to state properties of the routing table\<close>

text \<open>All contacts of a tree, bucket by bucket from left to right.\<close>

fun contacts_of :: "node \<Rightarrow> Contact list" where
  "contacts_of (Leaf b) = store b"
| "contacts_of (Node l r) = contacts_of l @ contacts_of r"

text \<open>The table holds a contact with the given id (as \<open>Id.prototype.equal\<close> tests it).\<close>

definition contains_id :: "RoutingTable \<Rightarrow> Id \<Rightarrow> bool" where
  "contains_id rt x = list_ex (\<lambda>c. Id_equal (contact_id c) x) (contacts_of (root rt))"

text \<open>
  The recursive reading of the walk of \<open>_findBucket\<close>: the bucket an id leads to and
  its depth, and the tree with that bucket replaced.
\<close>

fun find_leaf :: "Id \<Rightarrow> nat \<Rightarrow> node \<Rightarrow> nat \<times> Bucket" where
  "find_leaf i n (Leaf b) = (n, b)"
| "find_leaf i n (Node l r) = find_leaf i (n + 1) (if Id_at i n then r else l)"

fun update_leaf :: "Id \<Rightarrow> nat \<Rightarrow> node \<Rightarrow> node \<Rightarrow> node" where
  "update_leaf i n new (Leaf b) = new"
| "update_leaf i n new (Node l r) =
     (if Id_at i n then Node l (update_leaf i (n + 1) new r)
      else Node (update_leaf i (n + 1) new l) r)"

fun height_node :: "node \<Rightarrow> nat" where
  "height_node (Leaf b) = 0"
| "height_node (Node l r) = 1 + max (height_node l) (height_node r)"

text \<open>An id lies in the region of a path when its leading bits are those of the path.\<close>

definition on_path :: "bool list \<Rightarrow> Id \<Rightarrow> bool" where
  "on_path p x = (\<forall>j < length p. Id_at x j = p ! j)"

text \<open>No two contacts of a list have equal ids.\<close>

fun distinct_ids :: "Contact list \<Rightarrow> bool" where
  "distinct_ids [] = True"
| "distinct_ids (c # cs) =
     ((\<forall>c' \<in> set cs. \<not> Id_equal (contact_id c') (contact_id c)) \<and> distinct_ids cs)"

text \<open>
  The shape of a well-formed tree below the path \<open>p\<close>: every bucket lies less than
  \<open>BIT_SIZE\<close> deep, has a positive capacity, holds only contacts of its own region,
  and holds no two contacts with equal ids.
\<close>

fun tree_inv :: "bool list \<Rightarrow> node \<Rightarrow> bool" where
  "tree_inv p (Leaf b) =
     (length p < BIT_SIZE \<and> 0 < capacity b \<and>
      (\<forall>c \<in> set (store b). on_path p (contact_id c)) \<and> distinct_ids (store b))"
| "tree_inv p (Node l r) = (tree_inv (p @ [False]) l \<and> tree_inv (p @ [True]) r)"

text \<open>Every contact of the table is the registered holder of its endpoint.\<close>

definition endpoints_inv :: "RoutingTable \<Rightarrow> bool" where
  "endpoints_inv rt =
     (\<forall>c \<in> set (contacts_of (root rt)).
        \<exists>j. endpoints rt (JSON_stringify (endpoint c)) = Some j \<and> Id_equal j (contact_id c))"

text \<open>
  The same, except for contacts with the id \<open>i\<close> at the endpoint of key \<open>k\<close>: the state
  between the insertion of a contact and the registration of its endpoint.
\<close>

definition endpoints_inv_but :: "RoutingTable \<Rightarrow> string \<Rightarrow> Id \<Rightarrow> bool" where
  "endpoints_inv_but rt k i =
     (\<forall>c \<in> set (contacts_of (root rt)).
        (JSON_stringify (endpoint c) = k \<and> Id_equal (contact_id c) i) \<or>
        (\<exists>j. endpoints rt (JSON_stringify (endpoint c)) = Some j \<and> Id_equal j (contact_id c)))"

definition rt_inv :: "RoutingTable \<Rightarrow> bool" where
  "rt_inv rt =
     (0 < bucketSize rt \<and> tree_inv [] (root rt) \<and>
      (\<forall>c \<in> set (contacts_of (root rt)). \<not> Id_equal (contact_id c) (rt_id rt)) \<and>
      endpoints_inv rt)"

section \<open>JavaScript values\<close>

text \<open>
  The values that travel through the node as keys, stored values and timeouts.  Numbers
  are integers here; an object lists its own enumerable properties in enumeration
  order, each name once.
\<close>

datatype jsval =
    Undefined
  | Null
  | Bool bool
  | Num int
  | Str string
  | Obj "(string \<times> jsval) list"

fun truthy :: "jsval \<Rightarrow> bool" where
  "truthy Undefined = False"
| "truthy Null = False"
| "truthy (Bool b) = b"
| "truthy (Num n) = (n \<noteq> 0)"
| "truthy (Str s) = (s \<noteq> [])"
| "truthy (Obj kvs) = True"

section \<open>Plain objects and their prototype\<close>

text \<open>
  The cache of a node, the inner object that the cache holds for an id, the records of a
  lookup and the values parsed from a message are plain objects: each inherits from
  \<open>Object.prototype\<close>.  \<open>Object_prototype_names\<close> lists the own properties of
  \<open>Object.prototype\<close> as V8 defines them; all are built-in functions, except
  \<open>__proto__\<close>, an accessor that reads and replaces the prototype of the object it is
  used on.  None of them is enumerable.  Nothing else is taken to have been added to
  \<open>Object.prototype\<close>.
\<close>

definition Object_prototype_names :: "string list" where
  "Object_prototype_names =
     [''constructor'', ''__defineGetter__'', ''__defineSetter__'', ''hasOwnProperty'',
      ''__lookupGetter__'', ''__lookupSetter__'', ''isPrototypeOf'', ''propertyIsEnumerable'',
      ''toString'', ''valueOf'', ''__proto__'', ''toLocaleString'']"

text \<open>
  A read \<open>ob[k]\<close> on a plain object whose own properties are \<open>m\<close>: the own property,
  else the member of \<open>Object.prototype\<close> of that name, which is truthy and no value of
  the program's own, else \<open>undefined\<close>.
\<close>

datatype 'a found = Own 'a | Inherited | Absent

definition get_prop :: "(string \<rightharpoonup> 'a) \<Rightarrow> string \<Rightarrow> 'a found" where
  "get_prop m k =
     (case m k of
        Some v \<Rightarrow> Own v
      | None \<Rightarrow> if k \<in> set Object_prototype_names then Inherited else Absent)"

text \<open>
  How a call ends when it does not return.  \<open>Throws\<close> is an exception.  The other two
  are steps after which the state of the node no longer tells what the program does, and
  which end the run as far as it is followed here: \<open>UsesBuiltin n\<close>, the program takes
  the member \<open>n\<close> of \<open>Object.prototype\<close> for one of its own objects and is about to
  assign to a property of it, or to keep it as a value; \<open>SetsPrototype k\<close>, the
  assignment to the property \<open>__proto__\<close> of the inner object that the cache holds for
  \<open>k\<close> replaces the prototype of that object.
\<close>

datatype stop =
    Throws js_error
  | UsesBuiltin string
  | SetsPrototype string

text \<open>
  A property read \<open>v[k]\<close> on a value: a \<open>TypeError\<close> on \<open>undefined\<close> and
  \<open>null\<close>; on an object the own property, a member of \<open>Object.prototype\<close>, or
  \<open>undefined\<close>.  A primitive value inherits the members of \<open>Object.prototype\<close> too;
  a string has its length and its characters; what else the prototypes of strings,
  numbers and booleans provide is not modelled, and a read of another name gives
  \<open>undefined\<close>.
\<close>

fun dec_of_nat :: "nat \<Rightarrow> string" where
  "dec_of_nat n =
     (if n < 10 then [char_of (48 + n)] else dec_of_nat (n div 10) @ [char_of (48 + n mod 10)])"

definition dec_val :: "string \<Rightarrow> nat" where
  "dec_val s = foldl (\<lambda>n c. 10 * n + (of_char c - 48)) 0 s"

text \<open>
  An array index is the decimal numeral, without a sign or leading zeros, of a number
  below \<open>2\<^sup>3\<^sup>2 - 1\<close>.
\<close>

definition array_index :: "string \<Rightarrow> nat option" where
  "array_index s =
     (if list_all (\<lambda>c. c \<in> set ''0123456789'') s \<and> s = dec_of_nat (dec_val s)
           \<and> dec_val s < 4294967295
      then Some (dec_val s) else None)"

fun js_get :: "jsval \<Rightarrow> string \<Rightarrow> stop + jsval" where
  "js_get Undefined k = Inl (Throws (TypeError ''cannot read property of undefined''))"
| "js_get Null k = Inl (Throws (TypeError ''cannot read property of null''))"
| "js_get (Obj kvs) k =
     (case get_prop (map_of kvs) k of
        Own v \<Rightarrow> Inr v
      | Inherited \<Rightarrow> Inl (UsesBuiltin k)
      | Absent \<Rightarrow> Inr Undefined)"
| "js_get (Str s) k =
     (if k \<in> set Object_prototype_names then Inl (UsesBuiltin k)
      else if k = ''length'' then Inr (Num (int (length s)))
      else (case array_index k of
              Some i \<Rightarrow> if i < length s then Inr (Str [s ! i]) else Inr Undefined
            | None \<Rightarrow> Inr Undefined))"
| "js_get v k = (if k \<in> set Object_prototype_names then Inl (UsesBuiltin k) else Inr Undefined)"

text \<open>
  The assignment \<open>ob[k] = v\<close> on the records of a lookup, plain objects held as the
  list of their properties in the order in which \<open>for (k in ob)\<close> visits them: the
  array indices first, in ascending order, then the other names in the order of their
  creation.  A property of the object is overwritten in place, another name makes a new
  property.  A lookup assigns under a name only after \<open>_srccontact[k]\<close> has read as
  a contact or as \<open>undefined\<close>.
\<close>

fun obj_replace :: "string \<Rightarrow> 'a \<Rightarrow> (string \<times> 'a) list \<Rightarrow> (string \<times> 'a) list" where
  "obj_replace k v [] = []"
| "obj_replace k v ((k', v') # kvs) =
     (if k = k' then (k, v) # kvs else (k', v') # obj_replace k v kvs)"

fun obj_insert :: "nat \<Rightarrow> string \<Rightarrow> 'a \<Rightarrow> (string \<times> 'a) list \<Rightarrow> (string \<times> 'a) list" where
  "obj_insert n k v [] = [(k, v)]"
| "obj_insert n k v ((k', v') # kvs) =
     (case array_index k' of
        Some n' \<Rightarrow> if n' < n then (k', v') # obj_insert n k v kvs else (k, v) # (k', v') # kvs
      | None \<Rightarrow> (k, v) # (k', v') # kvs)"

definition obj_set :: "string \<Rightarrow> 'a \<Rightarrow> (string \<times> 'a) list \<Rightarrow> (string \<times> 'a) list" where
  "obj_set k v kvs =
     (case map_of kvs k of
        Some old \<Rightarrow> obj_replace k v kvs
      | None \<Rightarrow>
          (case array_index k of
             Some n \<Rightarrow> obj_insert n k v kvs
           | None \<Rightarrow> kvs @ [(k, v)]))"

text \<open>
  The conversion of a value to a primitive, as \<open>+\<close> applies it to an operand: an object
  is asked for its \<open>valueOf\<close> and then its \<open>toString\<close>.  The \<open>valueOf\<close> of
  \<open>Object.prototype\<close> returns the object itself, which is no primitive, and its
  \<open>toString\<close> returns a string; an own property of either name holds a value of the
  kinds above, none of which can be called, and is passed over.  So the conversion throws
  exactly when the object has an own property \<open>toString\<close>.
\<close>

fun to_primitive_throws :: "jsval \<Rightarrow> bool" where
  "to_primitive_throws (Obj kvs) = (case map_of kvs ''toString'' of Some x \<Rightarrow> True | None \<Rightarrow> False)"
| "to_primitive_throws v = False"

text \<open>
  Numbers as the comparison and the arithmetic of \<open>_expireCache\<close> see them: \<open>NaN\<close>,
  or a finite number, idealised as a real.
\<close>

datatype jsnum = NaN | Finite real

fun js_sub :: "jsnum \<Rightarrow> jsnum \<Rightarrow> jsnum" where
  "js_sub (Finite a) (Finite b) = Finite (a - b)"
| "js_sub a b = NaN"

fun js_mul :: "jsnum \<Rightarrow> jsnum \<Rightarrow> jsnum" where
  "js_mul (Finite a) (Finite b) = Finite (a * b)"
| "js_mul a b = NaN"

fun js_add :: "jsnum \<Rightarrow> jsnum \<Rightarrow> jsnum" where
  "js_add (Finite a) (Finite b) = Finite (a + b)"
| "js_add a b = NaN"

text \<open>\<open>a < b\<close> on numbers: false as soon as one side is \<open>NaN\<close>.\<close>

fun js_lt :: "jsnum \<Rightarrow> jsnum \<Rightarrow> bool" where
  "js_lt (Finite a) (Finite b) = (a < b)"
| "js_lt a b = False"

text \<open>
  The \<open>expire\<close> field of a cache entry.  \<open>_storeToCache\<close> writes \<open>null\<close> or
  \<open>now + expireTimeout\<close> where \<open>now\<close> is \<open>new Date()\<close>.  The operator \<open>+\<close>
  converts a \<open>Date\<close> operand to a primitive with the hint \<open>default\<close>, which for a
  \<open>Date\<close> is its string form, so the sum is the concatenation of two strings:
  \<open>TDateStr t v\<close> stands for the string \<open>String(new Date(t)) + String(v)\<close>.  It is not
  empty, hence truthy, and it is no numeric literal (it starts with the name of a
  weekday), so \<open>ToNumber\<close> maps it to \<open>NaN\<close>.  \<open>TNum\<close> is a numeric time stamp in
  milliseconds, which the code itself never writes.
\<close>

datatype timestamp = TNull | TNum real | TDateStr int jsval

fun truthy_ts :: "timestamp \<Rightarrow> bool" where
  "truthy_ts TNull = False"
| "truthy_ts (TNum r) = (r \<noteq> 0)"
| "truthy_ts (TDateStr t v) = True"

fun to_number :: "timestamp \<Rightarrow> jsnum" where
  "to_number TNull = Finite 0"
| "to_number (TNum r) = Finite r"
| "to_number (TDateStr t v) = NaN"

text \<open>\<open>now + x\<close> for \<open>now = new Date()\<close>.\<close>

definition date_plus :: "int \<Rightarrow> jsval \<Rightarrow> stop + timestamp" where
  "date_plus now x =
     (if to_primitive_throws x
      then Inl (Throws (TypeError ''cannot convert object to primitive value''))
      else Inr (TDateStr now x))"

section \<open>Hexadecimal forms of identifiers (lib/id.js)\<close>

definition hexdigit :: "nat \<Rightarrow> char" where
  "hexdigit n = ''0123456789abcdef'' ! (n mod 16)"

text \<open>\<open>Id.prototype.toString\<close> without \<open>short\<close>: \<open>this._buf.toString('hex')\<close>.\<close>

definition Id_toString :: "Id \<Rightarrow> string" where
  "Id_toString x = concat (map (\<lambda>b. [hexdigit (unat b div 16), hexdigit (unat b mod 16)]) (buf x))"

definition hex_val :: "char \<Rightarrow> nat option" where
  "hex_val c =
     (let n = of_char c :: nat
      in if 48 \<le> n \<and> n \<le> 57 then Some (n - 48)
         else if 97 \<le> n \<and> n \<le> 102 then Some (n - 87)
         else if 65 \<le> n \<and> n \<le> 70 then Some (n - 55)
         else None)"

text \<open>
  \<open>buf.write(string, 'hex')\<close> of Node: the bytes of the pairs of hexadecimal digits,
  up to the first pair that is not one.
\<close>

fun hex_decode :: "string \<Rightarrow> byte list" where
  "hex_decode (a # b # rest) =
     (case (hex_val a, hex_val b) of
        (Some x, Some y) \<Rightarrow> of_nat (16 * x + y) # hex_decode rest
      | _ \<Rightarrow> [])"
| "hex_decode rest = []"

text \<open>\<open>Id.fromHex(prefix)\<close>: the zero id overwritten from its first byte on.\<close>

definition Id_fromHex :: "string \<Rightarrow> Id" where
  "Id_fromHex s =
     (let bs = take SIZE (hex_decode s)
      in Id (bs @ replicate (SIZE - length bs) 0))"

text \<open>The constructor \<open>new Id(buf)\<close> refuses a buffer of another length.\<close>

definition new_Id :: "byte list \<Rightarrow> js_error + Id" where
  "new_Id b = (if length b \<noteq> SIZE then Inl (Error ''invalid buffer'') else Inr (Id b))"

text \<open>
  A key given to the node is an \<open>Id\<close> or a string.  \<open>Id.fromKey\<close> keeps an \<open>Id\<close>,
  decodes a string of forty lower-case hexadecimal digits, and hashes any other string
  with SHA-1.  The hash comes from Node's \<open>crypto\<close> module; it is the parameter
  \<open>sha1\<close> here.
\<close>

datatype key = KeyStr string | KeyId Id

definition is_hex40 :: "string \<Rightarrow> bool" where
  "is_hex40 s = (length s = 40 \<and> list_all (\<lambda>c. c \<in> set ''abcdef0123456789'') s)"

definition Id_fromKey :: "(string \<Rightarrow> byte list) \<Rightarrow> key \<Rightarrow> js_error + Id" where
  "Id_fromKey sha1 k =
     (case k of
        KeyId i \<Rightarrow> Inr i
      | KeyStr s \<Rightarrow> if is_hex40 s then Inr (Id_fromHex s) else new_Id (sha1 s))"

section \<open>The lookup list (lib/lookup-list.js)\<close>

text \<open>
  Modelled from the spec: \<open>lib/lookup-list.js\<close> is not among the sources.  The
  specification describes a list of at most \<open>k\<close> contacts, sorted by ascending XOR
  distance to a fixed target, each with a flag "already queried".  \<open>insert\<close> does
  nothing when the id is present, else inserts at the position that keeps the order and
  drops the farthest entry beyond \<open>k\<close>; \<open>next\<close> returns the closest contact not yet
  queried and marks it; \<open>remove\<close> deletes by id; \<open>getContacts\<close> returns the entries
  in order.
\<close>

record LookupList =
  ll_id :: Id
  ll_capacity :: nat
  ll_entries :: "(Contact \<times> bool) list"

definition new_LookupList :: "Id \<Rightarrow> nat \<Rightarrow> LookupList" where
  "new_LookupList i k = \<lparr>ll_id = i, ll_capacity = k, ll_entries = []\<rparr>"

fun insert_sorted :: "Id \<Rightarrow> Contact \<Rightarrow> (Contact \<times> bool) list \<Rightarrow> (Contact \<times> bool) list" where
  "insert_sorted t c [] = [(c, False)]"
| "insert_sorted t c ((c', q) # es) =
     (if compareDistance t (contact_id c) (contact_id c') > 0
      then (c, False) # (c', q) # es
      else (c', q) # insert_sorted t c es)"

definition LookupList_insert :: "LookupList \<Rightarrow> Contact \<Rightarrow> LookupList" where
  "LookupList_insert l c =
     (if list_ex (\<lambda>e. Id_equal (contact_id (fst e)) (contact_id c)) (ll_entries l) then l
      else l\<lparr>ll_entries := take (ll_capacity l) (insert_sorted (ll_id l) c (ll_entries l))\<rparr>)"

definition LookupList_insertMany :: "LookupList \<Rightarrow> Contact list \<Rightarrow> LookupList" where
  "LookupList_insertMany l cs = foldl LookupList_insert l cs"

fun next_loop :: "(Contact \<times> bool) list \<Rightarrow> (Contact \<times> bool) list \<times> Contact option" where
  "next_loop [] = ([], None)"
| "next_loop ((c, q) # es) =
     (if q then (case next_loop es of (es', r) \<Rightarrow> ((c, q) # es', r))
      else ((c, True) # es, Some c))"

definition LookupList_next :: "LookupList \<Rightarrow> LookupList \<times> Contact option" where
  "LookupList_next l = (case next_loop (ll_entries l) of (es, r) \<Rightarrow> (l\<lparr>ll_entries := es\<rparr>, r))"

definition LookupList_remove :: "LookupList \<Rightarrow> Contact \<Rightarrow> LookupList" where
  "LookupList_remove l c =
     l\<lparr>ll_entries := filter (\<lambda>e. \<not> Id_equal (contact_id (fst e)) (contact_id c)) (ll_entries l)\<rparr>"

definition LookupList_getContacts :: "LookupList \<Rightarrow> Contact list" where
  "LookupList_getContacts l = map fst (ll_entries l)"

definition LookupList_length :: "LookupList \<Rightarrow> nat" where
  "LookupList_length l = length (ll_entries l)"

section \<open>Finding the closest contacts (lib/routing-table.js)\<close>

text \<open>
  \<open>_find\<close>: a bucket pours all its contacts into the list; an inner node visits the
  child on the side of the id first and the other child only while the list is short.
\<close>

fun RoutingTable_find_rec :: "Id \<Rightarrow> nat \<Rightarrow> node \<Rightarrow> nat \<Rightarrow> LookupList \<Rightarrow> LookupList" where
  "RoutingTable_find_rec i rank (Leaf b) count l = LookupList_insertMany l (Bucket_obtain b None)"
| "RoutingTable_find_rec i rank (Node lft rgt) count l =
     (if Id_at i rank
      then (let l1 = RoutingTable_find_rec i (rank + 1) rgt count l
            in if LookupList_length l1 < count
               then RoutingTable_find_rec i (rank + 1) lft count l1 else l1)
      else (let l1 = RoutingTable_find_rec i (rank + 1) lft count l
            in if LookupList_length l1 < count
               then RoutingTable_find_rec i (rank + 1) rgt count l1 else l1))"

definition RoutingTable_find :: "RoutingTable \<Rightarrow> Id \<Rightarrow> nat option \<Rightarrow> Contact list" where
  "RoutingTable_find rt i count =
     (let count' = (case count of None \<Rightarrow> bucketSize rt | Some n \<Rightarrow> n)
      in LookupList_getContacts
           (RoutingTable_find_rec i 0 (root rt) count' (new_LookupList i count')))"

text \<open>\<open>markRefreshed\<close>: the bucket of the id records the time of the call.\<close>

definition RoutingTable_markRefreshed :: "RoutingTable \<Rightarrow> Id \<Rightarrow> int \<Rightarrow> js_error + RoutingTable" where
  "RoutingTable_markRefreshed rt i now =
     (case findBucket rt i of
        None \<Rightarrow> Inl (TypeError ''res is undefined'')
      | Some res \<Rightarrow>
          Inr (rt\<lparr>root := replace_at (path res) (Leaf ((bucket res)\<lparr>refreshed := Some now\<rparr>)) (root rt)\<rparr>))"

section \<open>The lookup (lib/lookup.js, the copy with an \<open>idkey\<close>)\<close>

text \<open>
  The subkey of an operation: absent (\<open>undefined\<close>), \<open>null\<close> for all subkeys, a
  string, an \<open>Id\<close> (when \<open>set\<close> passes its key on as the subkey), or an array of
  names.  \<open>prop_name\<close> is the property name a subkey is converted to when it indexes
  an object.
\<close>

datatype subkey = SubUndefined | SubNull | SubStr string | SubId Id | SubArray "string list"

fun join_comma :: "string list \<Rightarrow> string" where
  "join_comma [] = []"
| "join_comma [s] = s"
| "join_comma (s # ss) = s @ '','' @ join_comma ss"

fun prop_name :: "subkey \<Rightarrow> string" where
  "prop_name SubUndefined = ''undefined''"
| "prop_name SubNull = ''null''"
| "prop_name (SubStr s) = s"
| "prop_name (SubId i) = Id_toString i"
| "prop_name (SubArray ss) = join_comma ss"

fun truthy_subkey :: "subkey \<Rightarrow> bool" where
  "truthy_subkey SubUndefined = False"
| "truthy_subkey SubNull = False"
| "truthy_subkey (SubStr s) = (s \<noteq> [])"
| "truthy_subkey (SubId i) = True"
| "truthy_subkey (SubArray ss) = True"

text \<open>The requests a node hands to its transport.\<close>

record store_payload =
  sp_id :: Id
  sp_idkey :: string
  sp_subkey :: subkey
  sp_value :: jsval
  sp_expire :: jsval

datatype rpc =
    PingRPC endpoint Id
  | StoreRPC endpoint store_payload
  | FindNodeRPC endpoint Id Id
  | FindValueRPC endpoint Id Id "string option" subkey

text \<open>
  The state of one lookup.  \<open>_value\<close> and \<open>_valueTimeout\<close> start \<open>undefined\<close>
  (\<open>None\<close>) and become objects on the first value recorded; \<open>_srccontact\<close> starts as
  an empty object.
\<close>

record Lookup =
  l_targetId :: Id
  l_size :: nat
  l_concurrency :: nat
  l_idkey :: "string option"
  l_subkey :: subkey
  l_value :: "(string \<times> jsval) list option"
  l_valueTimeout :: "(string \<times> jsval) list option"
  l_srccontact :: "(string \<times> Contact) list"
  l_list :: LookupList
  l_concurrents :: int
  l_abort :: bool
  l_depth :: nat

definition new_Lookup ::
  "Id \<Rightarrow> string option \<Rightarrow> subkey \<Rightarrow> Contact list \<Rightarrow> nat \<Rightarrow> nat \<Rightarrow> Lookup" where
  "new_Lookup i idkey sub seeds sz conc =
     \<lparr>l_targetId = i, l_size = sz, l_concurrency = conc, l_idkey = idkey, l_subkey = sub,
      l_value = None, l_valueTimeout = None, l_srccontact = [],
      l_list = LookupList_insertMany (new_LookupList i sz) seeds,
      l_concurrents = 0, l_abort = False, l_depth = 0\<rparr>"

text \<open>
  What the final callback \<open>cb\<close> receives: from \<open>proceed\<close> the shortlist, the values
  gathered, their timeouts and their sources; for a value found in single-subkey mode the
  shortlist, the value, its timeout and the responder.
\<close>

datatype lookup_result =
    Finished "Contact list" "(string \<times> jsval) list option" "(string \<times> jsval) list option"
      "(string \<times> Contact) list"
  | FoundValue "Contact list" jsval jsval Contact

text \<open>
  \<open>Lookup.prototype.proceed\<close>.  The parameter \<open>fnv\<close> is \<open>opts.findNodeOrValue\<close>,
  which hands a request to the transport or throws; its callback runs later, on the
  response.  The result is the new state, the requests issued, and the arguments of
  \<open>cb\<close> if it was called.
\<close>

fun proceed_loop ::
  "(Contact \<Rightarrow> Id \<Rightarrow> string option \<Rightarrow> subkey \<Rightarrow> js_error + rpc) \<Rightarrow> nat \<Rightarrow> Lookup \<Rightarrow> rpc list \<Rightarrow>
     js_error + Lookup \<times> rpc list \<times> lookup_result option" where
  "proceed_loop fnv 0 L out = Inr (L, out, None)"
| "proceed_loop fnv (Suc n) L out =
     (case LookupList_next (l_list L) of
        (list', None) \<Rightarrow>
          if l_concurrents L = 0 \<and> \<not> l_abort L
          then Inr (L\<lparr>l_list := list'\<rparr>, out,
                    Some (Finished (LookupList_getContacts list') (l_value L) (l_valueTimeout L)
                            (l_srccontact L)))
          else Inr (L\<lparr>l_list := list'\<rparr>, out, None)
      | (list', Some contact) \<Rightarrow>
          (let L1 = L\<lparr>l_list := list', l_concurrents := l_concurrents L + 1\<rparr>
           in case fnv contact (l_targetId L1) (l_idkey L1) (l_subkey L1) of
                Inl e \<Rightarrow> Inl e
              | Inr request \<Rightarrow> proceed_loop fnv n L1 (out @ [request])))"

definition Lookup_proceed ::
  "(Contact \<Rightarrow> Id \<Rightarrow> string option \<Rightarrow> subkey \<Rightarrow> js_error + rpc) \<Rightarrow> Lookup \<Rightarrow>
     js_error + Lookup \<times> rpc list \<times> lookup_result option" where
  "Lookup_proceed fnv L = proceed_loop fnv (l_concurrency L) L []"

text \<open>
  The loop over the subkeys of a response in all-subkey mode (\<open>for (var k in value)\<close>).
  \<open>_srccontact\<close> is a plain object.  For a subkey \<open>k\<close> with a recorded source \<open>p\<close>
  the loop goes on to the next subkey when
  \<open>targetId.compareDistance(p.id, contact.id) >= 0\<close>.  For a subkey that names a member
  of \<open>Object.prototype\<close> and has no recorded source, \<open>_srccontact[k]\<close> is that member,
  which is truthy and has no \<open>id\<close>, and \<open>compareDistance\<close> throws for its first
  operand.  Otherwise the source and the value are recorded (\<open>record_source\<close>), and then
  the timeout \<open>timeout[k]\<close>, whose read throws when the response carried no timeouts.
  An exception ends the loop; the assignments made before it stay in effect.
\<close>

definition record_source :: "string \<Rightarrow> jsval \<Rightarrow> Contact \<Rightarrow> Lookup \<Rightarrow> Lookup" where
  "record_source k v contact L =
     L\<lparr>l_value := Some (obj_set k v (case l_value L of None \<Rightarrow> [] | Some ob \<Rightarrow> ob)),
       l_valueTimeout := Some (case l_valueTimeout L of None \<Rightarrow> [] | Some ob \<Rightarrow> ob),
       l_srccontact := obj_set k contact (l_srccontact L)\<rparr>"

definition record_timeout :: "string \<Rightarrow> jsval \<Rightarrow> Lookup \<Rightarrow> Lookup" where
  "record_timeout k t L =
     L\<lparr>l_valueTimeout := Some (obj_set k t (case l_valueTimeout L of None \<Rightarrow> [] | Some ob \<Rightarrow> ob))\<rparr>"

fun record_values ::
  "Contact \<Rightarrow> jsval \<Rightarrow> (string \<times> jsval) list \<Rightarrow> Lookup \<Rightarrow> Lookup \<times> stop option" where
  "record_values contact timeout [] L = (L, None)"
| "record_values contact timeout ((k, v) # kvs) L =
     (case (case get_prop (map_of (l_srccontact L)) k of
              Own p \<Rightarrow>
                if compareDistance (l_targetId L) (contact_id p) (contact_id contact) \<ge> 0
                then Inr True else Inr False
            | Inherited \<Rightarrow> Inl (Throws (Error ''invalid operand identifiers''))
            | Absent \<Rightarrow> Inr False) of
        Inl e \<Rightarrow> (L, Some e)
      | Inr True \<Rightarrow> record_values contact timeout kvs L
      | Inr False \<Rightarrow>
          (let L1 = record_source k v contact L
           in case js_get timeout k of
                Inl e \<Rightarrow> (L1, Some e)
              | Inr t \<Rightarrow> record_values contact timeout kvs (record_timeout k t L1)))"

text \<open>
  What \<open>for (var k in value)\<close> visits, with \<open>value[k]\<close>: the properties of an object,
  the characters of a string under their indices, nothing on another primitive value.
\<close>

fun enumerate_value :: "jsval \<Rightarrow> (string \<times> jsval) list" where
  "enumerate_value (Obj kvs) = kvs"
| "enumerate_value (Str s) = map (\<lambda>i. (dec_of_nat i, Str [s ! i])) [0..<length s]"
| "enumerate_value v = []"

text \<open>
  A response \<open>(err, contacts, value, timeout)\<close> of the transport, \<open>err\<close> being truthy
  or not, and \<open>contacts\<close> absent or a list.
\<close>

record response =
  r_err :: bool
  r_contacts :: "Contact list option"
  r_value :: jsval
  r_timeout :: jsval

text \<open>
  The callback that \<open>_forContact\<close> passes along with its request, called as a plain
  function, the way \<open>_findNode\<close> and \<open>_findValue\<close> of \<open>lib/dht.js\<close> call it.  The
  module is in strict mode, so \<open>this\<close> is \<open>undefined\<close> in the callback.  On a value
  in single-subkey mode the first statement builds its message from \<open>this._subkey\<close>;
  the read throws a \<open>TypeError\<close> before \<open>cb\<close> is called and before \<open>_abort\<close> is
  set.  The result is the new state, the requests issued by a further round of
  \<open>proceed\<close>, the calls of \<open>cb\<close>, and how the callback ended if it did not return;
  it then has not counted the response off \<open>_concurrents\<close>.
\<close>

definition forContact_response ::
  "(Contact \<Rightarrow> Id \<Rightarrow> string option \<Rightarrow> subkey \<Rightarrow> js_error + rpc) \<Rightarrow> Lookup \<Rightarrow> Contact \<Rightarrow> response \<Rightarrow>
     Lookup \<times> rpc list \<times> lookup_result list \<times> stop option" where
  "forContact_response fnv L contact r =
     (if l_abort L then (L\<lparr>l_concurrents := l_concurrents L - 1\<rparr>, [], [], None)
      else
        (let (L2, err) =
               (if r_err r then (L\<lparr>l_list := LookupList_remove (l_list L) contact\<rparr>, None)
                else
                  (let L1 = (case r_contacts r of
                               None \<Rightarrow> L
                             | Some cs \<Rightarrow> L\<lparr>l_list := LookupList_insertMany (l_list L) cs\<rparr>)
                   in if truthy (r_value r)
                      then (if l_subkey L1 = SubNull
                            then record_values contact (r_timeout r) (enumerate_value (r_value r)) L1
                            else (L1, Some (Throws (TypeError ''cannot read property _subkey of undefined''))))
                      else (L1, None)))
         in case err of
              Some e \<Rightarrow> (L2, [], [], Some e)
            | None \<Rightarrow>
                (let L3 = L2\<lparr>l_concurrents := l_concurrents L2 - 1\<rparr>
                 in if l_concurrents L3 = 0 \<and> \<not> l_abort L3
                    then (case Lookup_proceed fnv (L3\<lparr>l_depth := l_depth L3 + 1\<rparr>) of
                            Inl e \<Rightarrow> (L3\<lparr>l_depth := l_depth L3 + 1\<rparr>, [], [], Some (Throws e))
                          | Inr (L4, reqs, res) \<Rightarrow>
                              (L4, reqs, (case res of None \<Rightarrow> [] | Some x \<Rightarrow> [x]), None))
                    else (L3, [], [], None))))"

text \<open>The value and the source contact that a lookup has on record for a subkey.\<close>

definition value_of :: "Lookup \<Rightarrow> string \<Rightarrow> jsval option" where
  "value_of L s = (case l_value L of None \<Rightarrow> None | Some kvs \<Rightarrow> map_of kvs s)"

definition source_of :: "Lookup \<Rightarrow> string \<Rightarrow> Contact option" where
  "source_of L s = map_of (l_srccontact L) s"

section \<open>The DHT node (lib/dht.js, the copy with cache expiration)\<close>

record Opts =
  opt_bucketSize :: nat
  concurrency :: nat
  expireTimeMiliseconds :: int
  refreshTimeMiliseconds :: int
  replicateTimeMiliseconds :: int
  republishTimeMiliseconds :: int

text \<open>\<open>defaultOptions\<close>: a falsy option (absent, or 0) takes its default.\<close>

definition defaultOptions :: "Opts \<Rightarrow> Opts" where
  "defaultOptions os =
     \<lparr>opt_bucketSize = (if opt_bucketSize os = 0 then 20 else opt_bucketSize os),
      concurrency = (if concurrency os = 0 then 3 else concurrency os),
      expireTimeMiliseconds =
        (if expireTimeMiliseconds os = 0 then 1000 * (60 * 60 * 24 + 10) else expireTimeMiliseconds os),
      refreshTimeMiliseconds =
        (if refreshTimeMiliseconds os = 0 then 1000 * (60 * 60) else refreshTimeMiliseconds os),
      replicateTimeMiliseconds =
        (if replicateTimeMiliseconds os = 0 then 1000 * (60 * 60) else replicateTimeMiliseconds os),
      republishTimeMiliseconds =
        (if republishTimeMiliseconds os = 0 then 1000 * (60 * 60 * 24) else republishTimeMiliseconds os)\<rparr>"

text \<open>
  A cache entry \<open>{value, expire, refresh}\<close>; \<open>refresh\<close> is a \<open>Date\<close>, kept as its
  time in milliseconds.  The cache maps the hexadecimal form of an id to an object that
  maps subkeys to entries.
\<close>

record CacheEntry =
  "value" :: jsval
  expire :: timestamp
  refresh :: int

type_synonym cache = "string \<rightharpoonup> (string \<rightharpoonup> CacheEntry)"

record Dht =
  routes :: RoutingTable
  cache :: cache
  opts :: Opts
  pendingContact :: "Contact option"

text \<open>
  The constructor.  Its replication loop starts on the empty cache, where a pass has
  nothing to do; the timers are not part of the model.
\<close>

definition new_Dht :: "Id \<Rightarrow> Opts \<Rightarrow> js_error + Dht" where
  "new_Dht i os =
     (case new_RoutingTable i (opt_bucketSize os) of
        Inl e \<Rightarrow> Inl e
      | Inr rt \<Rightarrow> Inr \<lparr>routes = rt, cache = Map.empty, opts = os, pendingContact = None\<rparr>)"

subsection \<open>Names in scope\<close>

text \<open>
  Reading a variable looks its name up in the parameters of the function, then in the
  declarations at the top of the module, then in what Node provides (the arguments of the
  module wrapper and the global object).  A name found nowhere makes the read throw a
  \<open>ReferenceError\<close>.  Functions and classes are bound to an object here, since only
  the comparison with \<open>undefined\<close> looks at them.
\<close>

definition module_bindings :: "(string \<times> jsval) list" where
  "module_bindings =
     map (\<lambda>n. (n, Obj []))
       [''asyncMap'', ''Id'', ''RoutingTable'', ''Lookup'', ''Contact'', ''RPC_FUNCTIONS'',
        ''checkInterface'', ''defaultOptions'', ''Dht'']"

definition runtime_bindings :: "(string \<times> jsval) list" where
  "runtime_bindings =
     map (\<lambda>n. (n, Obj []))
       [''exports'', ''require'', ''module'', ''__filename'', ''__dirname'',
        ''global'', ''process'', ''console'', ''Buffer'', ''setTimeout'', ''clearTimeout'',
        ''setInterval'', ''clearInterval'', ''setImmediate'', ''clearImmediate'',
        ''Object'', ''Function'', ''Array'', ''String'', ''Number'', ''Boolean'', ''Date'',
        ''Math'', ''JSON'', ''RegExp'', ''Error'', ''TypeError'', ''ReferenceError'',
        ''parseInt'', ''parseFloat'', ''isNaN'', ''isFinite'', ''Infinity'']
     @ [(''undefined'', Undefined)]"

definition read_var :: "(string \<times> jsval) list \<Rightarrow> string \<Rightarrow> js_error + jsval" where
  "read_var params name =
     (case map_of (params @ module_bindings @ runtime_bindings) name of
        None \<Rightarrow> Inl (ReferenceError (name @ '' is not defined''))
      | Some v \<Rightarrow> Inr v)"

definition subkey_val :: "subkey \<Rightarrow> jsval" where
  "subkey_val s =
     (case s of
        SubUndefined \<Rightarrow> Undefined
      | SubNull \<Rightarrow> Null
      | SubStr x \<Rightarrow> Str x
      | SubId i \<Rightarrow> Obj []
      | SubArray xs \<Rightarrow> Obj [])"

definition idkey_val :: "string option \<Rightarrow> jsval" where
  "idkey_val k = (case k of None \<Rightarrow> Undefined | Some s \<Rightarrow> Str s)"

subsection \<open>The helpers handed to the lookup\<close>

text \<open>\<open>_findNode\<close>: the request; its callback is not part of this function's run.\<close>

definition Dht_findNode :: "Dht \<Rightarrow> Contact \<Rightarrow> Id \<Rightarrow> js_error + rpc" where
  "Dht_findNode d contact targetId =
     Inr (FindNodeRPC (endpoint contact) (rt_id (routes d)) targetId)"

text \<open>
  \<open>_findValue(contact, targetId, key, subkey, cb)\<close> builds its payload from a variable
  \<open>idkey\<close>.
\<close>

definition Dht_findValue ::
  "Dht \<Rightarrow> Contact \<Rightarrow> Id \<Rightarrow> string option \<Rightarrow> subkey \<Rightarrow> bool \<Rightarrow> js_error + rpc" where
  "Dht_findValue d contact targetId k sub cb_is_function =
     (if \<not> cb_is_function then Inl (Error ''Invalid callback'')
      else
        (case read_var [(''contact'', Obj []), (''targetId'', Obj []), (''key'', idkey_val k),
                        (''subkey'', subkey_val sub), (''cb'', Obj [])] ''idkey'' of
           Inl e \<Rightarrow> Inl e
         | Inr v \<Rightarrow>
             Inr (FindValueRPC (endpoint contact) (rt_id (routes d)) targetId
                    (case v of Str s \<Rightarrow> Some s | _ \<Rightarrow> None) sub)))"

text \<open>
  \<open>_findNodeOrValue(contact, targetId, idkey, subkey, cb)\<close>: the test of the callback,
  then the guard \<open>key === undefined\<close>, then one of the two helpers.
\<close>

definition Dht_findNodeOrValue ::
  "Dht \<Rightarrow> Contact \<Rightarrow> Id \<Rightarrow> string option \<Rightarrow> subkey \<Rightarrow> bool \<Rightarrow> js_error + rpc" where
  "Dht_findNodeOrValue d contact targetId idkey sub cb_is_function =
     (if \<not> cb_is_function then Inl (Error ''Invalid callback'')
      else
        (case read_var [(''contact'', Obj []), (''targetId'', Obj []), (''idkey'', idkey_val idkey),
                        (''subkey'', subkey_val sub), (''cb'', Obj [])] ''key'' of
           Inl e \<Rightarrow> Inl e
         | Inr v \<Rightarrow>
             if v = Undefined then Dht_findNode d contact targetId
             else Dht_findValue d contact targetId idkey sub cb_is_function))"

subsection \<open>The cache\<close>

text \<open>
  \<open>_expireCache(now)\<close>.  For each id of the cache the factor is \<open>Math.exp(k / n)\<close>
  when the table counts \<open>n > k\<close> nodes, else 1; for each entry, a falsy \<open>expire\<close>
  skips the entry, a factor other than 1 rescales \<open>expire\<close>, and the entry is deleted
  when the result is less than \<open>now\<close>.  The exponential is the real one.
\<close>

definition expireFactor :: "Opts \<Rightarrow> nat \<Rightarrow> real" where
  "expireFactor os numNodes =
     (if numNodes > opt_bucketSize os then exp (real (opt_bucketSize os) / real numNodes) else 1)"

definition entry_expired :: "Opts \<Rightarrow> real \<Rightarrow> int \<Rightarrow> CacheEntry \<Rightarrow> bool" where
  "entry_expired os factor now e =
     (if \<not> truthy_ts (expire e) then False
      else
        (let t = Finite (real_of_int (expireTimeMiliseconds os));
             x = to_number (expire e);
             x' = (if factor \<noteq> 1 then js_add (js_sub x t) (js_mul (js_sub x t) (Finite factor))
                   else x)
         in js_lt x' (Finite (real_of_int now))))"

definition Dht_expireCache :: "Dht \<Rightarrow> int \<Rightarrow> Dht" where
  "Dht_expireCache d now =
     d\<lparr>cache := (\<lambda>idkey.
         case cache d idkey of
           None \<Rightarrow> None
         | Some entry \<Rightarrow>
             (let i = Id_fromHex idkey;
                  numNodes = countClosestNodes (routes d) i;
                  factor = expireFactor (opts d) numNodes
              in Some (\<lambda>subkey.
                   case entry subkey of
                     None \<Rightarrow> None
                   | Some e \<Rightarrow> if entry_expired (opts d) factor now e then None else Some e)))\<rparr>"

text \<open>
  \<open>_storeToCache\<close>.  The cache and its inner objects are plain objects.  The first
  statement, \<open>if(!this._cache[idkey]) this._cache[idkey] = {}\<close>, makes an inner object
  unless the read finds something truthy, which is an inner object made before or, for an
  \<open>idkey\<close> that names a member of \<open>Object.prototype\<close>, that member; the assignments
  that follow then have the member as their target (\<open>None\<close> below).  With an array of
  subkeys, each subkey takes \<open>value[subk]\<close> and its own expiration; else the one entry is
  written.  \<open>now\<close> is the \<open>new Date()\<close> of the call.
\<close>

definition store_target :: "cache \<Rightarrow> string \<Rightarrow> (string \<rightharpoonup> CacheEntry) option" where
  "store_target c idkey =
     (case get_prop c idkey of
        Own m \<Rightarrow> Some m
      | Inherited \<Rightarrow> None
      | Absent \<Rightarrow> Some Map.empty)"

text \<open>
  The assignment \<open>this._cache[idkey][k] = e\<close>.  On an inner object it makes or
  overwrites an own property, except that the name \<open>__proto__\<close>, when the object has no
  own property of that name, reaches the accessor of \<open>Object.prototype\<close>.
\<close>

definition assign_entry ::
  "string \<Rightarrow> (string \<rightharpoonup> CacheEntry) option \<Rightarrow> string \<Rightarrow> CacheEntry \<Rightarrow> stop + (string \<rightharpoonup> CacheEntry)" where
  "assign_entry idkey target k e =
     (case target of
        None \<Rightarrow> Inl (UsesBuiltin idkey)
      | Some m \<Rightarrow>
          if k = ''__proto__'' \<and> m k = None then Inl (SetsPrototype idkey)
          else Inr (m(k \<mapsto> e)))"

fun storeToCache_loop ::
  "string \<Rightarrow> string list \<Rightarrow> jsval \<Rightarrow> jsval \<Rightarrow> int \<Rightarrow> (string \<rightharpoonup> CacheEntry) option \<Rightarrow>
     stop + (string \<rightharpoonup> CacheEntry) option" where
  "storeToCache_loop idkey [] v expireTimeout now target = Inr target"
| "storeToCache_loop idkey (subk # rest) v expireTimeout now target =
     (case (if \<not> truthy expireTimeout then Inr TNull
            else (case expireTimeout of
                    Num n \<Rightarrow> date_plus now expireTimeout
                  | _ \<Rightarrow> (case js_get expireTimeout subk of
                            Inl e \<Rightarrow> Inl e
                          | Inr t \<Rightarrow> date_plus now t))) of
        Inl e \<Rightarrow> Inl e
      | Inr ex \<Rightarrow>
          (case js_get v subk of
             Inl e \<Rightarrow> Inl e
           | Inr x \<Rightarrow>
               (case assign_entry idkey target subk \<lparr>value = x, expire = ex, refresh = now\<rparr> of
                  Inl e \<Rightarrow> Inl e
                | Inr m \<Rightarrow> storeToCache_loop idkey rest v expireTimeout now (Some m))))"

definition Dht_storeToCache ::
  "Dht \<Rightarrow> string \<Rightarrow> subkey \<Rightarrow> jsval \<Rightarrow> jsval \<Rightarrow> int \<Rightarrow> stop + Dht" where
  "Dht_storeToCache d idkey sub v expireTimeout now =
     (let target = store_target (cache d) idkey;
          written = (case sub of
                       SubArray ss \<Rightarrow> storeToCache_loop idkey ss v expireTimeout now target
                     | _ \<Rightarrow>
                         (case (if truthy expireTimeout then date_plus now expireTimeout
                                else Inr TNull) of
                            Inl e \<Rightarrow> Inl e
                          | Inr ex \<Rightarrow>
                              (case assign_entry idkey target (prop_name sub)
                                      \<lparr>value = v, expire = ex, refresh = now\<rparr> of
                                 Inl e \<Rightarrow> Inl e
                               | Inr m \<Rightarrow> Inr (Some m))))
      in case written of
           Inl e \<Rightarrow> Inl e
         | Inr None \<Rightarrow> Inr d
         | Inr (Some m) \<Rightarrow> Inr (d\<lparr>cache := (cache d)(idkey \<mapsto> m)\<rparr>))"

text \<open>
  \<open>_findFromCache\<close> runs an expiration pass and returns \<open>{value: undefined}\<close>
  (\<open>Miss\<close>), the entry of the subkey, or for an absent subkey the values and the
  expirations of all the subkeys.  It calls \<open>hasOwnProperty\<close> as a method of the cache
  and of the inner object; on an object that has an own property of that name the call
  finds an inner object or an entry in place of the function, and throws.
  \<open>cleanupValues\<close> copies by assignment to fresh objects, where the name \<open>__proto__\<close>
  makes no property.
\<close>

datatype cached =
    Miss
  | Hit CacheEntry
  | HitAll "string \<rightharpoonup> jsval" "string \<rightharpoonup> timestamp"

definition cleanupValues :: "(string \<rightharpoonup> CacheEntry) \<Rightarrow> cached" where
  "cleanupValues m =
     HitAll (\<lambda>k. if k = ''__proto__'' then None else map_option value (m k))
            (\<lambda>k. if k = ''__proto__'' then None else map_option expire (m k))"

definition Dht_findFromCache :: "Dht \<Rightarrow> string \<Rightarrow> subkey \<Rightarrow> int \<Rightarrow> js_error + Dht \<times> cached" where
  "Dht_findFromCache d idkey sub now =
     (let d1 = Dht_expireCache d now
      in case cache d1 ''hasOwnProperty'' of
           Some ob \<Rightarrow> Inl (TypeError ''this._cache.hasOwnProperty is not a function'')
         | None \<Rightarrow>
             (case cache d1 idkey of
                None \<Rightarrow> Inr (d1, Miss)
              | Some m \<Rightarrow>
                  if m = Map.empty then Inr (d1, Miss)
                  else if sub = SubUndefined \<or> sub = SubNull then Inr (d1, cleanupValues m)
                  else (case m ''hasOwnProperty'' of
                          Some e \<Rightarrow> Inl (TypeError ''this._cache[idkey].hasOwnProperty is not a function'')
                        | None \<Rightarrow>
                            (case m (prop_name sub) of
                               None \<Rightarrow> Inr (d1, Miss)
                             | Some e \<Rightarrow> Inr (d1, Hit e)))))"

text \<open>The field \<open>value\<close> of what \<open>_findFromCache\<close> returns.\<close>

datatype peeked = PValue jsval | PAll "string \<rightharpoonup> jsval"

definition cached_value :: "cached \<Rightarrow> peeked" where
  "cached_value c =
     (case c of
        Miss \<Rightarrow> PValue Undefined
      | Hit e \<Rightarrow> PValue (value e)
      | HitAll vs es \<Rightarrow> PAll vs)"

fun truthy_peeked :: "peeked \<Rightarrow> bool" where
  "truthy_peeked (PValue v) = truthy v"
| "truthy_peeked (PAll vs) = True"

text \<open>\<open>peek(key, subkey)\<close>: the subkey defaults to the hexadecimal form of the id.\<close>

definition Dht_peek ::
  "(string \<Rightarrow> byte list) \<Rightarrow> Dht \<Rightarrow> key \<Rightarrow> subkey \<Rightarrow> int \<Rightarrow> js_error + Dht \<times> peeked" where
  "Dht_peek sha1 d k sub now =
     (case Id_fromKey sha1 k of
        Inl e \<Rightarrow> Inl e
      | Inr keyid \<Rightarrow>
          (case Dht_findFromCache d (Id_toString keyid)
                  (if truthy_subkey sub then sub else SubStr (Id_toString keyid)) now of
             Inl e \<Rightarrow> Inl e
           | Inr (d1, c) \<Rightarrow>
               (let val = cached_value c
                in if val = PValue Undefined then Inr (d1, PValue Null) else Inr (d1, val))))"

subsection \<open>Publishing\<close>

text \<open>
  \<open>_storeTo\<close>: the local cache when the contact is the node itself, else a \<open>store\<close>
  request.
\<close>

definition Dht_storeTo ::
  "Dht \<Rightarrow> string \<Rightarrow> subkey \<Rightarrow> jsval \<Rightarrow> Contact \<Rightarrow> jsval \<Rightarrow> int \<Rightarrow> stop + Dht \<times> rpc list" where
  "Dht_storeTo d idkey sub v contact expireTimeout now =
     (if Id_equal (contact_id contact) (rt_id (routes d))
      then (case Dht_storeToCache d idkey sub v expireTimeout now of
              Inl e \<Rightarrow> Inl e
            | Inr d1 \<Rightarrow> Inr (d1, []))
      else Inr (d, [StoreRPC (endpoint contact)
                     \<lparr>sp_id = rt_id (routes d), sp_idkey = idkey, sp_subkey = sub, sp_value = v,
                      sp_expire = (if truthy expireTimeout then expireTimeout
                                   else Num (expireTimeMiliseconds (opts d)))\<rparr>]))"

text \<open>
  \<open>_storeToMany\<close>: \<open>asyncMap\<close> starts \<open>_storeTo\<close> on each contact in turn and calls
  \<open>cb\<close> when all of them have called back, which on an empty list is at once.
\<close>

fun Dht_storeToMany ::
  "Dht \<Rightarrow> string \<Rightarrow> subkey \<Rightarrow> jsval \<Rightarrow> Contact list \<Rightarrow> jsval \<Rightarrow> int \<Rightarrow> stop + Dht \<times> rpc list" where
  "Dht_storeToMany d idkey sub v [] expireTimeout now = Inr (d, [])"
| "Dht_storeToMany d idkey sub v (c # cs) expireTimeout now =
     (case Dht_storeTo d idkey sub v c expireTimeout now of
        Inl e \<Rightarrow> Inl e
      | Inr (d1, reqs) \<Rightarrow>
          (case Dht_storeToMany d1 idkey sub v cs expireTimeout now of
             Inl e \<Rightarrow> Inl e
           | Inr (d2, reqs') \<Rightarrow> Inr (d2, reqs @ reqs')))"

text \<open>
  \<open>iterativeFindNode\<close>: the seeds from the table, the bucket of the id marked as
  refreshed, and a lookup started with \<open>_findNodeOrValue\<close> as its helper (which is
  always given a function as the callback).
\<close>

definition Dht_iterativeFindNode ::
  "Dht \<Rightarrow> Id \<Rightarrow> int \<Rightarrow> js_error + Dht \<times> Lookup \<times> rpc list \<times> lookup_result option" where
  "Dht_iterativeFindNode d i now =
     (let seeds = RoutingTable_find (routes d) i (Some (concurrency (opts d)))
      in case RoutingTable_markRefreshed (routes d) i now of
           Inl e \<Rightarrow> Inl e
         | Inr rt \<Rightarrow>
             (let d1 = d\<lparr>routes := rt\<rparr>;
                  L = new_Lookup i None SubUndefined seeds (opt_bucketSize (opts d1))
                        (concurrency (opts d1))
              in case Lookup_proceed (\<lambda>c t k s. Dht_findNodeOrValue d1 c t k s True) L of
                   Inl e \<Rightarrow> Inl e
                 | Inr (L1, reqs, res) \<Rightarrow> Inr (d1, L1, reqs, res)))"

fun result_contacts :: "lookup_result \<Rightarrow> Contact list" where
  "result_contacts (Finished cs v t s) = cs"
| "result_contacts (FoundValue cs v t c) = cs"

text \<open>
  What a call of \<open>set\<close> or \<open>multiset\<close> has done when it returns: the node, the
  requests handed to the transport, and whether \<open>cb\<close> has been called.  When the lookup
  is still waiting for responses, nothing has been stored yet.
\<close>

record set_outcome =
  so_dht :: Dht
  so_requests :: "rpc list"
  so_called_back :: bool

definition Dht_multiset ::
  "(string \<Rightarrow> byte list) \<Rightarrow> Dht \<Rightarrow> key \<Rightarrow> subkey \<Rightarrow> jsval \<Rightarrow> int \<Rightarrow> stop + set_outcome" where
  "Dht_multiset sha1 d k sub v now =
     (case Id_fromKey sha1 k of
        Inl e \<Rightarrow> Inl (Throws e)
      | Inr keyid \<Rightarrow>
          (case Dht_iterativeFindNode d keyid now of
             Inl e \<Rightarrow> Inl (Throws e)
           | Inr (d1, L, reqs, None) \<Rightarrow>
               Inr \<lparr>so_dht = d1, so_requests = reqs, so_called_back = False\<rparr>
           | Inr (d1, L, reqs, Some res) \<Rightarrow>
               (case Dht_storeToMany d1 (Id_toString keyid) sub v (result_contacts res) Null now of
                  Inl e \<Rightarrow> Inl e
                | Inr (d2, reqs') \<Rightarrow>
                    Inr \<lparr>so_dht = d2, so_requests = reqs @ reqs',
                         so_called_back = (result_contacts res = [])\<rparr>)))"

text \<open>\<open>set(key, value, cb)\<close> is \<open>multiset(key, key, value, cb)\<close>.\<close>

definition key_as_subkey :: "key \<Rightarrow> subkey" where
  "key_as_subkey k = (case k of KeyStr s \<Rightarrow> SubStr s | KeyId i \<Rightarrow> SubId i)"

definition Dht_set ::
  "(string \<Rightarrow> byte list) \<Rightarrow> Dht \<Rightarrow> key \<Rightarrow> jsval \<Rightarrow> int \<Rightarrow> stop + set_outcome" where
  "Dht_set sha1 d k v now = Dht_multiset sha1 d k (key_as_subkey k) v now"

subsection \<open>Retrieving\<close>

text \<open>
  The callback of the lookup in \<open>_iterativeFindValue\<close>: the value found is stored at
  the closest contact seen, unless that contact was its source; in all-subkey mode only
  the subkeys whose source is another contact are stored.  \<open>contacts[0]\<close> is
  \<open>undefined\<close> on an empty shortlist, and reading its \<open>id\<close> throws; so does
  \<open>srcContact[k].id.equal\<close> for a subkey without a source, whether \<open>srcContact[k]\<close> is
  \<open>undefined\<close> or a member of \<open>Object.prototype\<close>, which has no \<open>id\<close>.
\<close>

fun collect_store ::
  "Contact option \<Rightarrow> (string \<times> Contact) list \<Rightarrow> (string \<times> jsval) list \<Rightarrow>
     js_error + (string \<times> jsval) list" where
  "collect_store closest src [] = Inr []"
| "collect_store closest src ((k, v) # kvs) =
     (case get_prop (map_of src) k of
        Absent \<Rightarrow> Inl (TypeError ''cannot read property id of undefined'')
      | Inherited \<Rightarrow> Inl (TypeError ''cannot read property equal of undefined'')
      | Own p \<Rightarrow>
          (case closest of
             None \<Rightarrow> Inl (TypeError ''cannot read property id of undefined'')
           | Some c \<Rightarrow>
               (case collect_store closest src kvs of
                  Inl e \<Rightarrow> Inl e
                | Inr rest \<Rightarrow>
                    if Id_equal (contact_id p) (contact_id c) then Inr rest
                    else Inr ((k, v) # rest))))"

definition iterativeFindValue_done ::
  "Dht \<Rightarrow> string \<Rightarrow> subkey \<Rightarrow> lookup_result \<Rightarrow> int \<Rightarrow> stop + Dht \<times> rpc list \<times> jsval" where
  "iterativeFindValue_done d idkey sub res now =
     (case res of
        FoundValue contacts v expireTimeout srcContact \<Rightarrow>
          (case contacts of
             [] \<Rightarrow> Inl (Throws (TypeError ''cannot read property id of undefined''))
           | closest # _ \<Rightarrow>
               if \<not> Id_equal (contact_id srcContact) (contact_id closest) \<and> truthy v
               then (case Dht_storeTo d idkey sub v closest expireTimeout now of
                       Inl e \<Rightarrow> Inl e
                     | Inr (d1, reqs) \<Rightarrow> Inr (d1, reqs, v))
               else Inr (d, [], v))
      | Finished contacts vals tmos src \<Rightarrow>
          (case collect_store (case contacts of [] \<Rightarrow> None | c # _ \<Rightarrow> Some c) src
                  (case vals of None \<Rightarrow> [] | Some kvs \<Rightarrow> kvs) of
             Inl e \<Rightarrow> Inl (Throws e)
           | Inr sv \<Rightarrow>
               (let v = (case vals of None \<Rightarrow> Undefined | Some kvs \<Rightarrow> Obj kvs)
                in case (sv, contacts) of
                     (_ # _, closest # _) \<Rightarrow>
                       (case Dht_storeTo d idkey (SubArray (map fst sv)) (Obj sv) closest
                               (case tmos of None \<Rightarrow> Undefined | Some t \<Rightarrow> Obj t) now of
                          Inl e \<Rightarrow> Inl e
                        | Inr (d1, reqs) \<Rightarrow> Inr (d1, reqs, v))
                   | _ \<Rightarrow> Inr (d, [], v))))"

text \<open>
  What a call of \<open>multiget\<close> has done when it returns: it has scheduled \<open>cb\<close> with
  the value peeked from the cache, or it has started an iterative find-value, whose
  lookup has handed requests to the transport and may already have called back.
\<close>

datatype get_outcome =
    ServedFromCache Dht peeked
  | FindValueStarted Dht Lookup "rpc list" "jsval option"

definition Dht_iterativeFindValue ::
  "Dht \<Rightarrow> string \<Rightarrow> subkey \<Rightarrow> int \<Rightarrow> stop + get_outcome" where
  "Dht_iterativeFindValue d idkey sub now =
     (let i = Id_fromHex idkey;
          seeds = RoutingTable_find (routes d) i (Some (concurrency (opts d)))
      in case RoutingTable_markRefreshed (routes d) i now of
           Inl e \<Rightarrow> Inl (Throws e)
         | Inr rt \<Rightarrow>
             (let d1 = d\<lparr>routes := rt\<rparr>;
                  L = new_Lookup i (Some idkey) sub seeds (opt_bucketSize (opts d1))
                        (concurrency (opts d1))
              in case Lookup_proceed (\<lambda>c t k s. Dht_findNodeOrValue d1 c t k s True) L of
                   Inl e \<Rightarrow> Inl (Throws e)
                 | Inr (L1, reqs, None) \<Rightarrow> Inr (FindValueStarted d1 L1 reqs None)
                 | Inr (L1, reqs, Some res) \<Rightarrow>
                     (case iterativeFindValue_done d1 idkey sub res now of
                        Inl e \<Rightarrow> Inl e
                      | Inr (d2, reqs', v) \<Rightarrow> Inr (FindValueStarted d2 L1 (reqs @ reqs') (Some v)))))"

text \<open>
  \<open>multiget(key, subkey, cb)\<close>: the value peeked is served when it is truthy and
  \<open>subkey !== undefined\<close>.
\<close>

definition Dht_multiget ::
  "(string \<Rightarrow> byte list) \<Rightarrow> Dht \<Rightarrow> key \<Rightarrow> subkey \<Rightarrow> int \<Rightarrow> stop + get_outcome" where
  "Dht_multiget sha1 d k sub now =
     (case Id_fromKey sha1 k of
        Inl e \<Rightarrow> Inl (Throws e)
      | Inr keyid \<Rightarrow>
          (case Dht_peek sha1 d (KeyId keyid) sub now of
             Inl e \<Rightarrow> Inl (Throws e)
           | Inr (d1, val) \<Rightarrow>
               if truthy_peeked val \<and> sub \<noteq> SubUndefined then Inr (ServedFromCache d1 val)
               else Dht_iterativeFindValue d1 (Id_toString keyid) sub now))"

text \<open>\<open>get(key, cb)\<close> and \<open>getall(key, cb)\<close>.\<close>

definition Dht_get ::
  "(string \<Rightarrow> byte list) \<Rightarrow> Dht \<Rightarrow> key \<Rightarrow> int \<Rightarrow> stop + get_outcome" where
  "Dht_get sha1 d k now = Dht_multiget sha1 d k (key_as_subkey k) now"

definition Dht_getall ::
  "(string \<Rightarrow> byte list) \<Rightarrow> Dht \<Rightarrow> key \<Rightarrow> int \<Rightarrow> stop + get_outcome" where
  "Dht_getall sha1 d k now = Dht_multiget sha1 d k SubNull now"

subsection \<open>Discovered contacts\<close>

text \<open>
  \<open>_discovered\<close> stores the contact; when the table answers with the oldest contact
  of a full bucket and no ping is pending, that contact is pinged.  The callback of the
  ping is \<open>Dht_onPong\<close>: unless the pong carries no error and the id of the new
  contact, the old contact is removed and the new one stored.
\<close>

definition Dht_discovered :: "Dht \<Rightarrow> Id \<Rightarrow> endpoint \<Rightarrow> js_error + Dht \<times> rpc list" where
  "Dht_discovered d i ep =
     (let contact = new_Contact i ep
      in case RoutingTable_store (routes d) contact of
           Inl e \<Rightarrow> Inl e
         | Inr (rt, oldContact) \<Rightarrow>
             (case oldContact of
                Some old \<Rightarrow>
                  if pendingContact d = None
                  then Inr (d\<lparr>routes := rt, pendingContact := Some old\<rparr>,
                            [PingRPC (endpoint old) (rt_id rt)])
                  else Inr (d\<lparr>routes := rt\<rparr>, [])
              | None \<Rightarrow> Inr (d\<lparr>routes := rt\<rparr>, [])))"

text \<open>
  \<open>_onStore\<close>, the handler of an incoming \<open>store\<close> request: the sender is a
  discovered contact, and the value goes to the cache with the expiration of the payload
  or the default one.
\<close>

definition Dht_onStore :: "Dht \<Rightarrow> endpoint \<Rightarrow> store_payload \<Rightarrow> int \<Rightarrow> stop + Dht \<times> rpc list" where
  "Dht_onStore d ep payload now =
     (case Dht_discovered d (sp_id payload) ep of
        Inl e \<Rightarrow> Inl (Throws e)
      | Inr (d1, reqs) \<Rightarrow>
          (let ex = (if truthy (sp_expire payload) then sp_expire payload
                     else Num (expireTimeMiliseconds (opts d1)))
           in case Dht_storeToCache d1 (sp_idkey payload) (sp_subkey payload) (sp_value payload)
                     ex now of
                Inl e \<Rightarrow> Inl e
              | Inr d2 \<Rightarrow> Inr (d2, reqs)))"

datatype pong = PongError | Pong Id

definition Dht_onPong :: "Dht \<Rightarrow> Contact \<Rightarrow> Contact \<Rightarrow> pong \<Rightarrow> js_error + Dht" where
  "Dht_onPong d oldContact contact p =
     (let d1 = d\<lparr>pendingContact := None\<rparr>
      in if \<not> (case p of PongError \<Rightarrow> True | Pong remoteId \<Rightarrow> \<not> Id_equal remoteId (contact_id contact))
         then Inr d1
         else (case RoutingTable_remove (routes d1) (ByContact oldContact) of
                 Inl e \<Rightarrow> Inl e
               | Inr (rt1, _) \<Rightarrow>
                   (case RoutingTable_store rt1 contact of
                      Inl e \<Rightarrow> Inl e
                    | Inr (rt2, _) \<Rightarrow> Inr (d1\<lparr>routes := rt2\<rparr>))))"

text \<open>
  The operations that change the routing table of a node, and a run of them in
  sequence: \<open>store\<close>, \<open>storeSome\<close> and \<open>remove\<close> of the table, \<open>_discovered\<close>,
  and the callback of a ping.
\<close>

datatype table_op =
    OpStore Contact
  | OpStoreSome "Contact list"
  | OpRemove remove_arg
  | OpDiscovered Id endpoint
  | OpPong Contact Contact pong

definition apply_op :: "Dht \<Rightarrow> table_op \<Rightarrow> js_error + Dht" where
  "apply_op d op =
     (case op of
        OpStore c \<Rightarrow>
          (case RoutingTable_store (routes d) c of
             Inl e \<Rightarrow> Inl e
           | Inr (rt, _) \<Rightarrow> Inr (d\<lparr>routes := rt\<rparr>))
      | OpStoreSome cs \<Rightarrow>
          (case storeSome (routes d) cs of
             Inl e \<Rightarrow> Inl e
           | Inr rt \<Rightarrow> Inr (d\<lparr>routes := rt\<rparr>))
      | OpRemove a \<Rightarrow>
          (case RoutingTable_remove (routes d) a of
             Inl e \<Rightarrow> Inl e
           | Inr (rt, _) \<Rightarrow> Inr (d\<lparr>routes := rt\<rparr>))
      | OpDiscovered i ep \<Rightarrow>
          (case Dht_discovered d i ep of
             Inl e \<Rightarrow> Inl e
           | Inr (d1, _) \<Rightarrow> Inr d1)
      | OpPong old c p \<Rightarrow> Dht_onPong d old c p)"

fun run_ops :: "Dht \<Rightarrow> table_op list \<Rightarrow> js_error + Dht" where
  "run_ops d [] = Inr d"
| "run_ops d (op # ops) =
     (case apply_op d op of
        Inl e \<Rightarrow> Inl e
      | Inr d1 \<Rightarrow> run_ops d1 ops)"

section \<open>Concrete identifiers, contacts and tables\<close>

text \<open>
  The identifier whose first byte is \<open>hi\<close>, whose last byte is \<open>lo\<close>, and whose
  other eighteen bytes are zero: \<open>ex_id 0x80 1\<close> is \<open>0x80\<dots>01\<close>.
\<close>

definition ex_id :: "nat \<Rightarrow> nat \<Rightarrow> Id" where
  "ex_id hi lo = Id (of_nat hi # replicate 18 0 @ [of_nat lo])"

definition ex_contact :: "nat \<Rightarrow> nat \<Rightarrow> string \<Rightarrow> Contact" where
  "ex_contact hi lo e = new_Contact (ex_id hi lo) (Endpoint e True)"

text \<open>
  A table of the node \<open>0x00\<dots>00\<close> with buckets of one contact, whose single bucket
  holds \<open>0x80\<dots>01\<close>, reached at the endpoint \<open>a\<close>.
\<close>

definition ex_bucket_full :: Bucket where
  "ex_bucket_full = \<lparr>capacity = 1, prefix = '''', store = [ex_contact 128 1 ''a''], refreshed = None\<rparr>"

definition ex_table_full :: RoutingTable where
  "ex_table_full = \<lparr>rt_id = Id_zero, bucketSize = 1, endpoints = [''a'' \<mapsto> ex_id 128 1],
                     root = Leaf ex_bucket_full\<rparr>"

definition ex_find_result :: find_result where
  "ex_find_result = \<lparr>path = [], bucket = ex_bucket_full, allowSplit = False, fr_nth = 0,
                      fr_bit = True, fr_prefix = ''''\<rparr>"

text \<open>
  A table of the node \<open>0x00\<dots>00\<close> whose single bucket holds the contact
  \<open>0x00\<dots>01\<close>.
\<close>

definition ex_table_near :: RoutingTable where
  "ex_table_near = \<lparr>rt_id = Id_zero, bucketSize = 20, endpoints = [''a'' \<mapsto> ex_id 0 1],
       root = Leaf \<lparr>capacity = 20, prefix = '''', store = [ex_contact 0 1 ''a''], refreshed = None\<rparr>\<rparr>"

text \<open>
  A node \<open>0x00\<dots>00\<close> with the default options, one contact in its table, and one
  cache entry: under the id \<open>0x00\<dots>02\<close>, the subkey that is the hexadecimal form of
  that id holds the value \<open>world\<close> without expiration.
\<close>

definition ex_opts :: Opts where
  "ex_opts = defaultOptions \<lparr>opt_bucketSize = 0, concurrency = 0, expireTimeMiliseconds = 0,
       refreshTimeMiliseconds = 0, replicateTimeMiliseconds = 0, republishTimeMiliseconds = 0\<rparr>"

definition ex_entry :: CacheEntry where
  "ex_entry = \<lparr>value = Str ''world'', expire = TNull, refresh = 0\<rparr>"

definition ex_dht_cached :: Dht where
  "ex_dht_cached =
     \<lparr>routes = ex_table_near,
      cache = [Id_toString (ex_id 0 2) \<mapsto> [Id_toString (ex_id 0 2) \<mapsto> ex_entry]],
      opts = ex_opts, pendingContact = None\<rparr>"

text \<open>
  The SHA-1 digest of the string \<open>hello\<close>, and a hash function that returns it; it
  stands for SHA-1 where \<open>hello\<close> is the only string hashed.
\<close>

definition sha1_of_hello :: "byte list" where
  "sha1_of_hello =
     [0xaa, 0xf4, 0xc6, 0x1d, 0xdc, 0xc5, 0xe8, 0xa2, 0xda, 0xbe,
      0xde, 0x0f, 0x3b, 0x48, 0x2c, 0xd9, 0xae, 0xa9, 0x43, 0x4d]"

definition sha1_hello :: "string \<Rightarrow> byte list" where
  "sha1_hello s = sha1_of_hello"

text \<open>
  The node \<open>0x00\<dots>00\<close> as the constructor leaves it with the default options, and
  the same node once the bucket of its table has been marked as refreshed at time 0.
\<close>

definition ex_dht_fresh :: Dht where
  "ex_dht_fresh =
     \<lparr>routes = \<lparr>rt_id = Id_zero, bucketSize = 20, endpoints = Map.empty,
                 root = Leaf \<lparr>capacity = 20, prefix = '''', store = [], refreshed = None\<rparr>\<rparr>,
      cache = Map.empty, opts = ex_opts, pendingContact = None\<rparr>"

definition ex_dht_refreshed :: Dht where
  "ex_dht_refreshed =
     \<lparr>routes = \<lparr>rt_id = Id_zero, bucketSize = 20, endpoints = Map.empty,
                 root = Leaf \<lparr>capacity = 20, prefix = '''', store = [], refreshed = Some 0\<rparr>\<rparr>,
      cache = Map.empty, opts = ex_opts, pendingContact = None\<rparr>"

text \<open>
  A lookup for the target \<open>0x00\<dots>00\<close> in all-subkey mode, with one request in
  flight, that has the value \<open>old\<close> on record for the subkey \<open>s\<close>, reported by the
  contact \<open>0x80\<dots>01\<close>; and a response that carries the value \<open>x\<close> for the subkey
  \<open>a\<close> and the value \<open>new\<close> for \<open>s\<close>, each with a timeout.
\<close>

definition ex_lookup :: Lookup where
  "ex_lookup =
     \<lparr>l_targetId = Id_zero, l_size = 20, l_concurrency = 3, l_idkey = Some (Id_toString Id_zero),
      l_subkey = SubNull, l_value = Some [(''s'', Str ''old'')],
      l_valueTimeout = Some [(''s'', Num 1000)],
      l_srccontact = [(''s'', ex_contact 128 1 ''a'')],
      l_list = new_LookupList Id_zero 20, l_concurrents = 1, l_abort = False, l_depth = 0\<rparr>"

definition ex_response_timed :: response where
  "ex_response_timed =
     \<lparr>r_err = False, r_contacts = None,
      r_value = Obj [(''a'', Str ''x''), (''s'', Str ''new'')],
      r_timeout = Obj [(''a'', Num 1000), (''s'', Num 2000)]\<rparr>"

text \<open>The table of the node \<open>0x00\<dots>00\<close> with buckets of one contact, still empty.\<close>

definition ex_table_empty :: RoutingTable where
  "ex_table_empty = \<lparr>rt_id = Id_zero, bucketSize = 1, endpoints = Map.empty,
       root = Leaf \<lparr>capacity = 1, prefix = '''', store = [], refreshed = None\<rparr>\<rparr>"

text \<open>
  A \<open>store\<close> request from the peer \<open>0x00\<dots>01\<close>: under the id \<open>0x00\<dots>02\<close>,
  with that id itself as the subkey (as \<open>set\<close> passes it when its key is an \<open>Id\<close>),
  the value \<open>world\<close>, to expire after the default time.
\<close>

definition ex_store_payload :: store_payload where
  "ex_store_payload =
     \<lparr>sp_id = ex_id 0 1, sp_idkey = Id_toString (ex_id 0 2), sp_subkey = SubId (ex_id 0 2),
      sp_value = Str ''world'', sp_expire = Num 86410000\<rparr>"


section \<open>Properties of identifiers\<close>


lemma be_nat_msb_less:
  assumes "u1 < (u2::nat)" "r1 < P"
  shows "u1 * P + r1 < u2 * P + r2"
proof -
  have "u1 * P + r1 < (u1 + 1) * P" using assms(2) by simp
  also have "\<dots> \<le> u2 * P" using assms(1) by (intro mult_le_mono1) simp
  finally show ?thesis by simp
qed

lemma be_nat_bound: "be_nat bs < 256 ^ length bs"
proof (induction bs)
  case Nil show ?case by simp
next
  case (Cons b bs)
  have "unat b < 256" using unsigned_less[of b] by simp
  from be_nat_msb_less[OF this Cons, of 0] show ?case by simp
qed


lemma compareDistance_loop_be_nat:
  "compareDistance_loop x a b is =
     (if be_nat (map (xor_at x a) is) > be_nat (map (xor_at x b) is) then -1
      else if be_nat (map (xor_at x a) is) < be_nat (map (xor_at x b) is) then 1 else 0)"
proof (induction "is")
  case Nil show ?case by simp
next
  case (Cons i "is")
  let ?A = "be_nat (map (xor_at x a) is)" and ?B = "be_nat (map (xor_at x b) is)"
  let ?P = "(256::nat) ^ length is"
  have bA: "?A < ?P" using be_nat_bound[of "map (xor_at x a) is"] by simp
  have bB: "?B < ?P" using be_nat_bound[of "map (xor_at x b) is"] by simp
  consider (gt) "xor_at x a i > xor_at x b i" | (lt) "xor_at x a i < xor_at x b i"
    | (eq) "xor_at x a i = xor_at x b i" by (meson linorder_less_linear)
  then show ?case
  proof cases
    case gt
    then have "unat (xor_at x b i) < unat (xor_at x a i)" by (simp add: word_less_nat_alt)
    from be_nat_msb_less[OF this bB, of ?A] gt show ?thesis by simp
  next
    case lt
    then have "unat (xor_at x a i) < unat (xor_at x b i)" by (simp add: word_less_nat_alt)
    moreover have "\<not> xor_at x b i < xor_at x a i" using lt by simp
    ultimately show ?thesis using be_nat_msb_less[OF _ bA, of "unat (xor_at x a i)" "unat (xor_at x b i)" ?B] lt by (simp add: Let_def)
  next
    case eq
    with Cons show ?thesis by simp
  qed
qed

lemma compareDistance_xor_distance:
  "compareDistance x a b =
     (if xor_distance x a > xor_distance x b then -1
      else if xor_distance x a < xor_distance x b then 1 else 0)"
  by (simp add: compareDistance_def xor_distance_def distanceTo_def compareDistance_loop_be_nat)

lemma Id_equal_valid: "valid_id x \<Longrightarrow> valid_id y \<Longrightarrow> Id_equal x y = (x = y)"
  by (cases x; cases y) (auto simp: Id_equal_def valid_id_def buf_at_def list_all_iff intro: nth_equalityI)




lemma Id_equal_iff: "Id_equal x y = (\<forall>i < SIZE. buf_at x i = buf_at y i)"
  by (auto simp: Id_equal_def list_all_iff)

lemma Id_equal_refl: "Id_equal x x"
  by (simp add: Id_equal_iff)
lemma Id_equal_sym: "Id_equal x y \<Longrightarrow> Id_equal y x"
  by (simp add: Id_equal_iff)
lemma Id_equal_trans: "Id_equal x y \<Longrightarrow> Id_equal y z \<Longrightarrow> Id_equal x z"
  by (simp add: Id_equal_iff)

lemma Id_equal_at: "Id_equal x y \<Longrightarrow> j < BIT_SIZE \<Longrightarrow> Id_at x j = Id_at y j"
proof -
  assume e: "Id_equal x y" and j: "j < BIT_SIZE"
  from j have "j div 8 < SIZE" by (simp add: BIT_SIZE_def SIZE_def)
  with e have "buf_at x (j div 8) = buf_at y (j div 8)" by (simp add: Id_equal_iff)
  then show ?thesis by (simp add: Id_at_def)
qed

lemma on_path_equal: "Id_equal x y \<Longrightarrow> length p \<le> BIT_SIZE \<Longrightarrow> on_path p x = on_path p y"
proof -
  assume e: "Id_equal x y" and l: "length p \<le> BIT_SIZE"
  have "\<And>j. j < length p \<Longrightarrow> Id_at x j = Id_at y j" using Id_equal_at[OF e] l by simp
  then show ?thesis by (simp add: on_path_def)
qed

lemma on_path_snoc: "on_path (p @ [d]) x = (on_path p x \<and> Id_at x (length p) = d)"
  by (auto simp: on_path_def nth_append less_Suc_eq)

section \<open>The walk of the routing tree\<close>

lemma find_leaf_ge: "n \<le> fst (find_leaf i n t)"
proof (induction t arbitrary: n)
  case (Leaf b) show ?case by simp
next
  case (Node l r)
  have "n + 1 \<le> fst (find_leaf i (n + 1) (if Id_at i n then r else l))"
    using Node.IH[of "n + 1"] by (cases "Id_at i n") simp_all
  then show ?case by simp
qed

lemma findBucket_loop_leaf:
  "findBucket_loop L i t n a p pre = Some res \<Longrightarrow>
     find_leaf i n t = (fr_nth res, bucket res) \<and> fr_bit res = Id_at i (fr_nth res) \<and> fr_nth res < BIT_SIZE"
proof (induction t arbitrary: n a p pre)
  case (Leaf b)
  then show ?case by (cases "n < BIT_SIZE") auto
next
  case (Node l r)
  from Node.prems have n: "n < BIT_SIZE" by (cases "n < BIT_SIZE") auto
  show ?case
  proof (cases "Id_at i n")
    case True
    with Node.prems n have "findBucket_loop L i r (n + 1) (a \<and> True = Id_at L n) (p @ [True]) (pre @ ''1'') = Some res"
      by (simp add: Let_def)
    from Node.IH(2)[OF this] True show ?thesis by simp
  next
    case False
    with Node.prems n have "findBucket_loop L i l (n + 1) (a \<and> False = Id_at L n) (p @ [False]) (pre @ ''0'') = Some res"
      by (simp add: Let_def)
    from Node.IH(1)[OF this] False show ?thesis by simp
  qed
qed

lemma findBucket_loop_path:
  "findBucket_loop L i t n a p pre = Some res \<Longrightarrow>
     path res = p @ map (Id_at i) [n..<fr_nth res]"
proof (induction t arbitrary: n a p pre)
  case (Leaf b)
  then show ?case by (cases "n < BIT_SIZE") auto
next
  case (Node l r)
  from Node.prems have n: "n < BIT_SIZE" by (cases "n < BIT_SIZE") auto
  from findBucket_loop_leaf[OF Node.prems] have "fst (find_leaf i n (Node l r)) = fr_nth res" by simp
  then have "n + 1 \<le> fr_nth res" using find_leaf_ge[of "n + 1" i "if Id_at i n then r else l"] by simp
  then have upt: "[n..<fr_nth res] = n # [n + 1..<fr_nth res]" by (simp add: upt_conv_Cons)
  show ?case
  proof (cases "Id_at i n")
    case True
    with Node.prems n have "findBucket_loop L i r (n + 1) (a \<and> True = Id_at L n) (p @ [True]) (pre @ ''1'') = Some res"
      by (simp add: Let_def)
    from Node.IH(2)[OF this] True upt show ?thesis by simp
  next
    case False
    with Node.prems n have "findBucket_loop L i l (n + 1) (a \<and> False = Id_at L n) (p @ [False]) (pre @ ''0'') = Some res"
      by (simp add: Let_def)
    from Node.IH(1)[OF this] False upt show ?thesis by simp
  qed
qed

lemma findBucket_loop_allowSplit:
  "findBucket_loop L i t n a p pre = Some res \<Longrightarrow>
     allowSplit res = (a \<and> (\<forall>j. n \<le> j \<and> j \<le> fr_nth res \<longrightarrow> Id_at i j = Id_at L j))"
proof (induction t arbitrary: n a p pre)
  case (Leaf b)
  then have "n < BIT_SIZE" by (cases "n < BIT_SIZE") auto
  with Leaf have "allowSplit res = (a \<and> Id_at i n = Id_at L n)" "fr_nth res = n" by auto
  then show ?case by auto
next
  case (Node l r)
  from Node.prems have n: "n < BIT_SIZE" by (cases "n < BIT_SIZE") auto
  from findBucket_loop_leaf[OF Node.prems] have "fst (find_leaf i n (Node l r)) = fr_nth res" by simp
  then have ge: "n + 1 \<le> fr_nth res" using find_leaf_ge[of "n + 1" i "if Id_at i n then r else l"] by simp
  have split: "(\<forall>j. n \<le> j \<and> j \<le> fr_nth res \<longrightarrow> Id_at i j = Id_at L j) =
        (Id_at i n = Id_at L n \<and> (\<forall>j. n + 1 \<le> j \<and> j \<le> fr_nth res \<longrightarrow> Id_at i j = Id_at L j))"
    (is "?lhs = ?rhs")
  proof
    assume ?lhs with ge show ?rhs by simp
  next
    assume r: ?rhs
    show ?lhs
    proof (intro allI impI)
      fix j assume j: "n \<le> j \<and> j \<le> fr_nth res"
      show "Id_at i j = Id_at L j"
      proof (cases "j = n")
        case True with r show ?thesis by simp
      next
        case False with j have "n + 1 \<le> j" by simp
        with r j show ?thesis by blast
      qed
    qed
  qed
  show ?case
  proof (cases "Id_at i n")
    case True
    with Node.prems n have "findBucket_loop L i r (n + 1) (a \<and> True = Id_at L n) (p @ [True]) (pre @ ''1'') = Some res"
      by (simp add: Let_def)
    from Node.IH(2)[OF this] True show ?thesis unfolding split by blast
  next
    case False
    with Node.prems n have "findBucket_loop L i l (n + 1) (a \<and> False = Id_at L n) (p @ [False]) (pre @ ''0'') = Some res"
      by (simp add: Let_def)
    from Node.IH(1)[OF this] False show ?thesis unfolding split by blast
  qed
qed

lemma replace_at_update_leaf:
  "fst (find_leaf i n t) = m \<Longrightarrow> replace_at (map (Id_at i) [n..<m]) new t = update_leaf i n new t"
proof (induction t arbitrary: n)
  case (Leaf b) then show ?case by simp
next
  case (Node l r)
  from Node.prems have "n + 1 \<le> m" using find_leaf_ge[of "n + 1" i "if Id_at i n then r else l"] by simp
  then have upt: "[n..<m] = n # [n + 1..<m]" by (simp add: upt_conv_Cons)
  show ?case
  proof (cases "Id_at i n")
    case True
    with Node.prems have "fst (find_leaf i (n + 1) r) = m" by simp
    from Node.IH(2)[OF this] True upt show ?thesis by simp
  next
    case False
    with Node.prems have "fst (find_leaf i (n + 1) l) = m" by simp
    from Node.IH(1)[OF this] False upt show ?thesis by simp
  qed
qed

lemma findBucket_loop_total:
  "n + height_node t < BIT_SIZE \<Longrightarrow> \<exists>res. findBucket_loop L i t n a p pre = Some res"
proof (induction t arbitrary: n a p pre)
  case (Leaf b) then show ?case by simp
next
  case (Node l r)
  then have n: "n < BIT_SIZE" "(n+1) + height_node l < BIT_SIZE" "(n+1) + height_node r < BIT_SIZE" by auto
  show ?case
  proof (cases "Id_at i n")
    case True
    from Node.IH(2)[OF n(3), of "a \<and> True = Id_at L n" "p @ [True]" "pre @ ''1''"]
    obtain res where "findBucket_loop L i r (n + 1) (a \<and> True = Id_at L n) (p @ [True]) (pre @ ''1'') = Some res" by blast
    with True n(1) show ?thesis by (simp add: Let_def)
  next
    case False
    from Node.IH(1)[OF n(2), of "a \<and> False = Id_at L n" "p @ [False]" "pre @ ''0''"]
    obtain res where "findBucket_loop L i l (n + 1) (a \<and> False = Id_at L n) (p @ [False]) (pre @ ''0'') = Some res" by blast
    with False n(1) show ?thesis by (simp add: Let_def)
  qed
qed

lemma update_leaf_same: "update_leaf i n (Leaf (snd (find_leaf i n t))) t = t"
  by (induction t arbitrary: n) auto




lemma remove_loop_absent:
  "\<forall>c' \<in> set cs. \<not> Id_equal (contact_id c') i \<Longrightarrow> remove_loop cs i = (cs, None)"
  by (induction cs) auto

lemma Bucket_store_full:
  assumes "\<forall>c' \<in> set (store b). \<not> Id_equal (contact_id c') (contact_id c)"
    and "length (store b) = capacity b"
  shows "Bucket_store b c = (b, False)"
  using assms by (simp add: Bucket_store_def Bucket_remove_def remove_loop_absent)

lemma findBucket_replace_same:
  assumes "findBucket rt i = Some res"
  shows "replace_at (path res) (Leaf (bucket res)) (root rt) = root rt"
proof -
  from assms have f: "findBucket_loop (rt_id rt) i (root rt) 0 True [] '''' = Some res"
    by (simp add: findBucket_def)
  from findBucket_loop_leaf[OF f] have l: "find_leaf i 0 (root rt) = (fr_nth res, bucket res)" by simp
  from findBucket_loop_path[OF f] have p: "path res = map (Id_at i) [0..<fr_nth res]" by simp
  from l have "fst (find_leaf i 0 (root rt)) = fr_nth res" by simp
  from replace_at_update_leaf[OF this, of "Leaf (bucket res)"] p
  have "replace_at (path res) (Leaf (bucket res)) (root rt) = update_leaf i 0 (Leaf (bucket res)) (root rt)" by simp
  also have "\<dots> = root rt" using update_leaf_same[of i 0 "root rt"] l by simp
  finally show ?thesis .
qed

section \<open>Storing into a full bucket that may not split\<close>

text \<open>
  Claim C7.  Let \<open>store(c)\<close> pass the test for the local id and let \<open>_findBucket\<close>
  lead it to a bucket that does not hold the id of \<open>c\<close> and is at capacity.  If the walk
  has left the prefix of the local id (\<open>allowSplit\<close> is false) or the next depth is
  \<open>BIT_SIZE\<close>, then \<open>store\<close> returns the getter \<open>oldest\<close> of that bucket, which is
  its first contact, and the table (tree and endpoint map) is the one before the call, so
  \<open>c\<close> has not been inserted.
\<close>

theorem store_full_returns_oldest:
  assumes "\<not> Id_equal (contact_id c) (rt_id rt)"
    and "findBucket rt (contact_id c) = Some res"
    and "\<forall>c' \<in> set (store (bucket res)). \<not> Id_equal (contact_id c') (contact_id c)"
    and "length (store (bucket res)) = capacity (bucket res)"
    and "\<not> allowSplit res \<or> fr_nth res + 1 = BIT_SIZE"
  shows "RoutingTable_store rt c = Inr (rt, Bucket_oldest (bucket res)) \<and>
         (0 < capacity (bucket res) \<longrightarrow> Bucket_oldest (bucket res) = Some (hd (store (bucket res))))"
proof
  have bs: "Bucket_store (bucket res) c = (bucket res, False)"
    using assms(3,4) by (rule Bucket_store_full)
  have same: "rt\<lparr>root := replace_at (path res) (Leaf (bucket res)) (root rt)\<rparr> = rt"
    using findBucket_replace_same[OF assms(2)] by simp
  show "RoutingTable_store rt c = Inr (rt, Bucket_oldest (bucket res))"
    using assms(1,2,5) bs same by (auto simp add: RoutingTable_store_def)
  show "0 < capacity (bucket res) \<longrightarrow> Bucket_oldest (bucket res) = Some (hd (store (bucket res)))"
    using assms(4) by (cases "store (bucket res)") (auto simp: Bucket_oldest_def)
qed


theorem store_full_returns_oldest_witness:
  "\<not> Id_equal (contact_id (ex_contact 128 2 ''b'')) (rt_id ex_table_full) \<and>
   findBucket ex_table_full (contact_id (ex_contact 128 2 ''b'')) = Some ex_find_result \<and>
   list_all (\<lambda>c'. \<not> Id_equal (contact_id c') (contact_id (ex_contact 128 2 ''b'')))
     (store (bucket ex_find_result)) \<and>
   length (store (bucket ex_find_result)) = capacity (bucket ex_find_result) \<and>
   \<not> allowSplit ex_find_result \<and>
   RoutingTable_store ex_table_full (ex_contact 128 2 ''b'') =
     Inr (ex_table_full, Some (ex_contact 128 1 ''a''))"
proof -
  have h1: "\<not> Id_equal (contact_id (ex_contact 128 2 ''b'')) (rt_id ex_table_full)"
    by code_simp
  have h2: "findBucket ex_table_full (contact_id (ex_contact 128 2 ''b'')) = Some ex_find_result"
    by code_simp
  have h3: "\<forall>c' \<in> set (store (bucket ex_find_result)).
      \<not> Id_equal (contact_id c') (contact_id (ex_contact 128 2 ''b''))"
    by code_simp
  have h4: "length (store (bucket ex_find_result)) = capacity (bucket ex_find_result)"
    by code_simp
  have h5: "\<not> allowSplit ex_find_result \<or> fr_nth ex_find_result + 1 = BIT_SIZE"
    by (simp add: ex_find_result_def)
  have old: "Bucket_oldest (bucket ex_find_result) = Some (ex_contact 128 1 ''a'')"
    by (simp add: ex_find_result_def ex_bucket_full_def Bucket_oldest_def)
  from store_full_returns_oldest[OF h1 h2 h3 h4 h5] old h1 h2 h3 h4 show ?thesis
    by (simp add: ex_find_result_def list_all_iff)
qed

section \<open>Counting the contacts closer than an id\<close>

text \<open>
  \<open>countClosestNodes(X)\<close> adds up, over all buckets, the contacts \<open>c\<close> with
  \<open>compareDistance(L, X, c.id) > 0\<close> for the local id \<open>L\<close>.  By the contract of
  \<open>compareDistance\<close> (positive when its first argument is the closer one) these are
  the contacts that lie farther from \<open>L\<close> than \<open>X\<close> does.
\<close>


lemma Bucket_countClosestNodes_loop_filter:
  "Bucket_countClosestNodes_loop cs i r n =
     n + length (filter (\<lambda>c. compareDistance r i (contact_id c) > 0) cs)"
  by (induction cs arbitrary: n) auto

lemma eachBucket_count:
  "eachBucket (\<lambda>bucket count. count + Bucket_countClosestNodes bucket i r) t n =
     n + length (filter (\<lambda>c. compareDistance r i (contact_id c) > 0) (contacts_of t))"
  by (induction t arbitrary: n)
     (simp_all add: Bucket_countClosestNodes_def Bucket_countClosestNodes_loop_filter)

lemma countClosestNodes_compareDistance:
  "countClosestNodes rt x =
     length (filter (\<lambda>c. compareDistance (rt_id rt) x (contact_id c) > 0) (contacts_of (root rt)))"
  by (simp add: countClosestNodes_def eachBucket_count)

lemma compareDistance_pos_iff:
  "(compareDistance x a b > 0) = (xor_distance x a < xor_distance x b)"
  by (simp add: compareDistance_xor_distance)

lemma compareDistance_neg_iff:
  "(compareDistance x a b < 0) = (xor_distance x b < xor_distance x a)"
  by (simp add: compareDistance_xor_distance)

lemma countClosestNodes_farther:
  "countClosestNodes rt x =
     length (filter (\<lambda>c. xor_distance (rt_id rt) x < xor_distance (rt_id rt) (contact_id c))
               (contacts_of (root rt)))"
  by (simp add: countClosestNodes_compareDistance compareDistance_pos_iff)


text \<open>
  Claim C4.  The claim equates the result of \<open>countClosestNodes(X)\<close> with the number
  of contacts closer to the local id than \<open>X\<close> is, as the comment above the function
  announces.  On the table of node \<open>0x00\<dots>00\<close> that holds the one contact
  \<open>0x00\<dots>01\<close>, and for \<open>X = 0x00\<dots>02\<close>, the function returns 0, while one
  contact is closer to the local id than \<open>X\<close>.
\<close>

theorem countClosestNodes_misses_closer_contact:
  "countClosestNodes ex_table_near (ex_id 0 2) = 0 \<and>
   length (filter (\<lambda>c. xor_distance (rt_id ex_table_near) (contact_id c)
                        < xor_distance (rt_id ex_table_near) (ex_id 0 2))
             (contacts_of (root ex_table_near))) = 1"
proof -
  have c: "countClosestNodes ex_table_near (ex_id 0 2) = 0" by code_simp
  have "compareDistance Id_zero (ex_id 0 1) (ex_id 0 2) > 0" by code_simp
  then have "xor_distance Id_zero (ex_id 0 1) < xor_distance Id_zero (ex_id 0 2)"
    by (simp only: compareDistance_pos_iff)
  then have "length (filter (\<lambda>c. xor_distance (rt_id ex_table_near) (contact_id c)
                        < xor_distance (rt_id ex_table_near) (ex_id 0 2))
             (contacts_of (root ex_table_near))) = 1"
    by (simp add: ex_table_near_def ex_contact_def new_Contact_def)
  with c show ?thesis by simp
qed


section \<open>The helper of the lookup\<close>

text \<open>
  Claim C3.  Called with a function as its callback, \<open>_findNodeOrValue\<close> throws a
  \<open>ReferenceError\<close> for the variable \<open>key\<close>, which is no parameter of the function, no
  declaration of the module and no name that Node provides; whatever the callback is, the
  call never hands a request to the transport, so neither \<open>_findNode\<close> nor
  \<open>_findValue\<close> sends anything through this helper.
\<close>

theorem findNodeOrValue_throws_ReferenceError:
  "Dht_findNodeOrValue d contact targetId idkey sub True = Inl (ReferenceError ''key is not defined'')
   \<and> (\<forall>cb request. Dht_findNodeOrValue d contact targetId idkey sub cb \<noteq> Inr request)"
  by (simp add: Dht_findNodeOrValue_def read_var_def module_bindings_def runtime_bindings_def)

section \<open>Expiration of the cache\<close>

lemma entry_expired_null: "expire e = TNull \<Longrightarrow> \<not> entry_expired os f now e"
  by (simp add: entry_expired_def)

lemma entry_expired_datestr: "expire e = TDateStr t v \<Longrightarrow> \<not> entry_expired os f now e"
  by (simp add: entry_expired_def Let_def)

lemma map_nonempty: "m k = Some x \<Longrightarrow> m \<noteq> Map.empty"
  by auto

lemma expireCache_entry:
  assumes "cache d idkey = Some m" and "m k = Some e"
    and "expire e = TNull \<or> (\<exists>t v. expire e = TDateStr t v)"
  shows "\<exists>m'. cache (Dht_expireCache d now) idkey = Some m' \<and> m' k = Some e"
  using assms by (auto simp add: Dht_expireCache_def Let_def entry_expired_null entry_expired_datestr)

text \<open>
  Claim C10.  An expiration pass at any time \<open>now\<close> leaves in place, and unchanged,
  every cache entry whose \<open>expire\<close> field is \<open>null\<close>, whatever the routing table
  counts for the id of the entry.
\<close>

theorem expireCache_keeps_null_expire:
  assumes "cache d idkey = Some m" and "m subkey = Some e" and "expire e = TNull"
  shows "\<exists>m'. cache (Dht_expireCache d now) idkey = Some m' \<and> m' subkey = Some e"
  using assms by (simp add: Dht_expireCache_def Let_def entry_expired_null)

theorem expireCache_keeps_null_expire_witness:
  "cache ex_dht_cached (Id_toString (ex_id 0 2)) = Some [Id_toString (ex_id 0 2) \<mapsto> ex_entry] \<and>
   [Id_toString (ex_id 0 2) \<mapsto> ex_entry] (Id_toString (ex_id 0 2)) = Some ex_entry \<and>
   expire ex_entry = TNull \<and>
   (\<exists>m'. cache (Dht_expireCache ex_dht_cached 1000) (Id_toString (ex_id 0 2)) = Some m' \<and>
         m' (Id_toString (ex_id 0 2)) = Some ex_entry)"
proof -
  have h1: "cache ex_dht_cached (Id_toString (ex_id 0 2)) = Some [Id_toString (ex_id 0 2) \<mapsto> ex_entry]"
    by (simp add: ex_dht_cached_def)
  have h2: "[Id_toString (ex_id 0 2) \<mapsto> ex_entry] (Id_toString (ex_id 0 2)) = Some ex_entry" by simp
  have h3: "expire ex_entry = TNull" by (simp add: ex_entry_def)
  from expireCache_keeps_null_expire[OF h1 h2 h3, of 1000] h1 h2 h3 show ?thesis by blast
qed


section \<open>Reading back what was just stored\<close>

lemma hexdigit_hex:
  "hexdigit n \<in> set ''0123456789abcdef''"
proof -
  have "n mod 16 < length ''0123456789abcdef''"
    by simp
  then show ?thesis
    unfolding hexdigit_def by (rule nth_mem)
qed

lemma Id_toString_hex:
  "set (Id_toString x) \<subseteq> set ''0123456789abcdef''"
  using hexdigit_hex by (auto simp: Id_toString_def)

lemma Id_toString_not_builtin:
  "Id_toString x \<notin> set Object_prototype_names"
proof
  assume "Id_toString x \<in> set Object_prototype_names"
  then consider "CHR ''o'' \<in> set (Id_toString x)" | "CHR ''_'' \<in> set (Id_toString x)"
    | "CHR ''h'' \<in> set (Id_toString x)" | "CHR ''i'' \<in> set (Id_toString x)"
    | "CHR ''p'' \<in> set (Id_toString x)" | "CHR ''t'' \<in> set (Id_toString x)"
    | "CHR ''v'' \<in> set (Id_toString x)"
    by (auto simp: Object_prototype_names_def)
  then show False
    using Id_toString_hex[of x] by cases auto
qed

lemma expireCache_none:
  "cache d k = None \<Longrightarrow> cache (Dht_expireCache d now) k = None"
  by (simp add: Dht_expireCache_def)

lemma expireCache_inner_none:
  "cache d k = Some m \<Longrightarrow> m s = None \<Longrightarrow>
     \<exists>m'. cache (Dht_expireCache d now) k = Some m' \<and> m' s = None"
  by (simp add: Dht_expireCache_def Let_def)

lemma findFromCache_Hit:
  assumes "cache d ''hasOwnProperty'' = None" and "cache d idkey = Some m"
    and "m ''hasOwnProperty'' = None" and "m (prop_name sub) = Some e"
    and "expire e = TNull \<or> (\<exists>t v. expire e = TDateStr t v)"
    and "sub \<noteq> SubUndefined" and "sub \<noteq> SubNull"
  shows "Dht_findFromCache d idkey sub now = Inr (Dht_expireCache d now, Hit e)"
proof -
  from expireCache_entry[OF assms(2,4,5), of now] obtain m' where
    m': "cache (Dht_expireCache d now) idkey = Some m'" "m' (prop_name sub) = Some e"
    by blast
  from expireCache_inner_none[OF assms(2,3), of now] m'(1)
  have h: "m' ''hasOwnProperty'' = None"
    by simp
  from m'(2) have ne: "m' \<noteq> Map.empty"
    by auto
  show ?thesis
    using expireCache_none[OF assms(1), of now] m' h ne assms(6,7)
    by (simp add: Dht_findFromCache_def Let_def)
qed

lemma storeToCache_single:
  assumes "\<forall>ss. sub \<noteq> SubArray ss" and "store_target (cache d) idkey = Some m"
    and "prop_name sub \<noteq> ''__proto__''" and "\<not> to_primitive_throws expireTimeout"
  shows "Dht_storeToCache d idkey sub v expireTimeout now =
     Inr (d\<lparr>cache := (cache d)(idkey \<mapsto>
            m(prop_name sub \<mapsto>
                 \<lparr>value = v,
                  expire = (if truthy expireTimeout then TDateStr now expireTimeout else TNull),
                  refresh = now\<rparr>))\<rparr>)"
  using assms
  by (cases sub) (simp_all add: Dht_storeToCache_def Let_def assign_entry_def date_plus_def)

text \<open>
  The entry comes back for a string or an \<open>Id\<close> as the subkey whenever the names keep
  clear of \<open>Object.prototype\<close>: the \<open>idkey\<close> is one the cache holds or none that
  \<open>Object.prototype\<close> has, the subkey is neither \<open>__proto__\<close> nor
  \<open>hasOwnProperty\<close>, no entry is stored under \<open>hasOwnProperty\<close> already, and the
  timeout can be converted to a primitive.
\<close>

lemma store_then_find:
  assumes "\<forall>ss. sub \<noteq> SubArray ss" and "sub \<noteq> SubUndefined" and "sub \<noteq> SubNull"
    and "store_target (cache d) idkey = Some m"
    and "prop_name sub \<noteq> ''__proto__''" and "prop_name sub \<noteq> ''hasOwnProperty''"
    and "cache d ''hasOwnProperty'' = None" and "m ''hasOwnProperty'' = None"
    and "\<not> to_primitive_throws expireTimeout"
  shows "\<exists>d1 d2 e. Dht_storeToCache d idkey sub v expireTimeout now = Inr d1 \<and>
      Dht_findFromCache d1 idkey sub now' = Inr (d2, Hit e) \<and> value e = v"
proof -
  define ex where "ex = (if truthy expireTimeout then TDateStr now expireTimeout else TNull)"
  define e where "e = \<lparr>value = v, expire = ex, refresh = now\<rparr>"
  define m1 where "m1 = m(prop_name sub \<mapsto> e)"
  define d1 where "d1 = d\<lparr>cache := (cache d)(idkey \<mapsto> m1)\<rparr>"
  have st: "Dht_storeToCache d idkey sub v expireTimeout now = Inr d1"
    using storeToCache_single[OF assms(1,4,5,9)] by (simp add: d1_def m1_def e_def ex_def)
  have ik: "idkey \<noteq> ''hasOwnProperty''"
    using assms(4,7)
    by (auto simp: store_target_def get_prop_def Object_prototype_names_def split: option.splits if_splits)
  have c: "cache d1 idkey = Some m1"
    by (simp add: d1_def)
  have ch: "cache d1 ''hasOwnProperty'' = None"
    using assms(7) ik by (simp add: d1_def)
  have mh: "m1 ''hasOwnProperty'' = None"
    using assms(6,8) by (simp add: m1_def)
  have ms: "m1 (prop_name sub) = Some e"
    by (simp add: m1_def)
  have ex: "expire e = TNull \<or> (\<exists>t v. expire e = TDateStr t v)"
    by (simp add: e_def ex_def)
  from findFromCache_Hit[OF ch c mh ms ex assms(2,3), of now']
  have "Dht_findFromCache d1 idkey sub now' = Inr (Dht_expireCache d1 now', Hit e)" .
  moreover have "value e = v"
    by (simp add: e_def)
  ultimately show ?thesis
    using st by blast
qed

text \<open>
  What the node does with the names of \<open>Object.prototype\<close>.  Under the \<open>idkey\<close>
  \<open>toString\<close> the first statement of \<open>_storeToCache\<close> finds the function
  \<open>Object.prototype.toString\<close> and makes no inner object; the entry is assigned to a
  property of that function.  Under the subkey \<open>__proto__\<close> the entry becomes the
  prototype of the inner object and no property of it.
\<close>

lemma storeToCache_idkey_toString:
  "Dht_storeToCache ex_dht_fresh ''toString'' (SubStr s) v (Num n) now = Inl (UsesBuiltin ''toString'')"
  by (simp add: Dht_storeToCache_def store_target_def get_prop_def Object_prototype_names_def
        assign_entry_def date_plus_def ex_dht_fresh_def Let_def)

lemma storeToCache_subkey_proto:
  "Dht_storeToCache ex_dht_fresh (Id_toString (ex_id 0 2)) (SubStr ''__proto__'') v (Num n) now =
     Inl (SetsPrototype (Id_toString (ex_id 0 2)))"
  using Id_toString_not_builtin[of "ex_id 0 2"]
  by (simp add: Dht_storeToCache_def store_target_def get_prop_def
        assign_entry_def date_plus_def ex_dht_fresh_def Let_def)

text \<open>
  Claim C9 fails for the subkey \<open>hasOwnProperty\<close>.  On the node \<open>0x00\<dots>00\<close> as
  the constructor leaves it, \<open>_storeToCache(idkey, 'hasOwnProperty', v, n)\<close> returns for
  the \<open>idkey\<close> \<open>00\<dots>02\<close>, every value \<open>v\<close> and every number \<open>n\<close>, and leaves the
  entry as an own property of the inner object, where it hides the method of that name.
  \<open>_findFromCache(idkey, 'hasOwnProperty')\<close> on the resulting node, at the same instant
  or any other, does not yield the entry: the call
  \<open>this._cache[idkey].hasOwnProperty(subkey)\<close> finds the entry in place of the function
  and throws a \<open>TypeError\<close>.
\<close>

theorem stored_hasOwnProperty_not_read_back:
  "\<exists>d1. Dht_storeToCache ex_dht_fresh (Id_toString (ex_id 0 2)) (SubStr ''hasOwnProperty'') v (Num n) now
          = Inr d1 \<and>
        cache d1 (Id_toString (ex_id 0 2)) =
          Some [''hasOwnProperty'' \<mapsto>
                  \<lparr>value = v, expire = (if n \<noteq> 0 then TDateStr now (Num n) else TNull),
                   refresh = now\<rparr>] \<and>
        Dht_findFromCache d1 (Id_toString (ex_id 0 2)) (SubStr ''hasOwnProperty'') now' =
          Inl (TypeError ''this._cache[idkey].hasOwnProperty is not a function'')"
proof -
  let ?h = "Id_toString (ex_id 0 2)"
  define e where "e = \<lparr>value = v, expire = (if n \<noteq> 0 then TDateStr now (Num n) else TNull),
                         refresh = now\<rparr>"
  define d1 where "d1 = ex_dht_fresh\<lparr>cache := (cache ex_dht_fresh)(?h \<mapsto> [''hasOwnProperty'' \<mapsto> e])\<rparr>"
  have t: "store_target (cache ex_dht_fresh) ?h = Some Map.empty"
    using Id_toString_not_builtin[of "ex_id 0 2"]
    by (simp add: store_target_def get_prop_def ex_dht_fresh_def)
  have st: "Dht_storeToCache ex_dht_fresh ?h (SubStr ''hasOwnProperty'') v (Num n) now = Inr d1"
    using storeToCache_single[of "SubStr ''hasOwnProperty''" ex_dht_fresh ?h Map.empty "Num n" v now] t
    by (simp add: d1_def e_def)
  have c: "cache d1 ?h = Some [''hasOwnProperty'' \<mapsto> e]"
    by (simp add: d1_def)
  have x: "expire e = TNull \<or> (\<exists>t v. expire e = TDateStr t v)"
    by (simp add: e_def)
  from expireCache_entry[OF c _ x, of "''hasOwnProperty''" now'] obtain m' where
    m': "cache (Dht_expireCache d1 now') ?h = Some m'" "m' ''hasOwnProperty'' = Some e"
    by auto
  have hn: "?h \<noteq> ''hasOwnProperty''"
    using Id_toString_not_builtin[of "ex_id 0 2"] by (auto simp: Object_prototype_names_def)
  have "cache d1 ''hasOwnProperty'' = None"
    using hn by (simp add: d1_def ex_dht_fresh_def)
  then have ch: "cache (Dht_expireCache d1 now') ''hasOwnProperty'' = None"
    by (rule expireCache_none)
  from m'(2) have ne: "m' \<noteq> Map.empty"
    by auto
  have "Dht_findFromCache d1 ?h (SubStr ''hasOwnProperty'') now' =
          Inl (TypeError ''this._cache[idkey].hasOwnProperty is not a function'')"
    using ch m' ne by (simp add: Dht_findFromCache_def Let_def)
  with st c show ?thesis
    by (auto simp: e_def)
qed

section \<open>Publishing on a node without contacts\<close>

lemma find_empty_leaf:
  "root rt = Leaf b \<Longrightarrow> store b = [] \<Longrightarrow> RoutingTable_find rt i count = []"
  by (simp add: RoutingTable_find_def Bucket_obtain_def LookupList_insertMany_def
        LookupList_getContacts_def new_LookupList_def Let_def)

lemma markRefreshed_leaf:
  "root rt = Leaf b \<Longrightarrow>
   RoutingTable_markRefreshed rt i now = Inr (rt\<lparr>root := Leaf (b\<lparr>refreshed := Some now\<rparr>)\<rparr>)"
  by (simp add: RoutingTable_markRefreshed_def findBucket_def BIT_SIZE_def SIZE_def)

lemma proceed_empty:
  assumes "0 < conc"
  shows "Lookup_proceed fnv (new_Lookup i idkey sub [] sz conc) =
           Inr (new_Lookup i idkey sub [] sz conc, [], Some (Finished [] None None []))"
proof -
  from assms obtain n where n: "conc = Suc n" by (cases conc) auto
  show ?thesis
    by (simp add: Lookup_proceed_def new_Lookup_def n LookupList_next_def LookupList_insertMany_def
          new_LookupList_def LookupList_getContacts_def)
qed

lemma iterativeFindNode_empty:
  assumes "root (routes d) = Leaf b" and "store b = []" and "0 < concurrency (opts d)"
  shows "\<exists>d1 L. Dht_iterativeFindNode d i now = Inr (d1, L, [], Some (Finished [] None None []))
           \<and> cache d1 = cache d"
  using assms
  by (simp add: Dht_iterativeFindNode_def find_empty_leaf markRefreshed_leaf proceed_empty Let_def)

lemma expireCache_empty: "cache d = Map.empty \<Longrightarrow> cache (Dht_expireCache d now) = Map.empty"
  by (simp add: Dht_expireCache_def)

lemma peek_empty_cache:
  assumes "cache d = Map.empty" and "Id_fromKey sha1 k = Inr keyid"
  shows "\<exists>d'. Dht_peek sha1 d k sub now = Inr (d', PValue Null)"
  using assms
  by (simp add: Dht_peek_def Dht_findFromCache_def expireCache_empty Let_def cached_value_def)

lemma fromKey_hello: "Id_fromKey sha1_hello (KeyStr ''hello'') = Inr (Id sha1_of_hello)"
  by (simp add: Id_fromKey_def is_hex40_def new_Id_def sha1_hello_def sha1_of_hello_def SIZE_def)

lemma new_Dht_ex: "new_Dht Id_zero ex_opts = Inr ex_dht_fresh"
  by (simp add: new_Dht_def new_RoutingTable_def new_Bucket_def ex_opts_def defaultOptions_def
        ex_dht_fresh_def)

lemma concurrency_ex: "0 < concurrency ex_opts"
  by (simp add: ex_opts_def defaultOptions_def)

text \<open>
  Claim C1, as the code has it.  On a node constructed with an empty seed list (with a
  positive concurrency, as the default options give), \<open>set(key, value, cb)\<close> finds no
  contact, hands no request to the transport and calls \<open>cb\<close>; it stores nothing: the
  cache is still empty, and \<open>peek(key)\<close> returns \<open>null\<close>.
\<close>

theorem set_on_empty_node_stores_nothing:
  assumes "new_Dht localId os = Inr d" and "0 < concurrency os"
    and "Id_fromKey sha1 k = Inr keyid"
  shows "\<exists>out d'. Dht_set sha1 d k v now = Inr out \<and> so_called_back out \<and> so_requests out = []
           \<and> cache (so_dht out) = Map.empty
           \<and> Dht_peek sha1 (so_dht out) k SubUndefined now' = Inr (d', PValue Null)"
proof -
  from assms(1) obtain rt where rt: "new_RoutingTable localId (opt_bucketSize os) = Inr rt"
    and d: "d = \<lparr>routes = rt, cache = Map.empty, opts = os, pendingContact = None\<rparr>"
    by (auto simp: new_Dht_def split: sum.splits)
  from rt obtain b where b: "root rt = Leaf b" "store b = []"
    by (auto simp: new_RoutingTable_def new_Bucket_def split: if_splits)
  have r: "root (routes d) = Leaf b" using d b by simp
  have c: "0 < concurrency (opts d)" using d assms(2) by simp
  from iterativeFindNode_empty[OF r b(2) c, of keyid now] obtain d1 L where
    it: "Dht_iterativeFindNode d keyid now = Inr (d1, L, [], Some (Finished [] None None []))"
    and c1: "cache d1 = cache d" by blast
  have out: "Dht_set sha1 d k v now = Inr \<lparr>so_dht = d1, so_requests = [], so_called_back = True\<rparr>"
    using assms(3) it by (simp add: Dht_set_def Dht_multiset_def)
  have e: "cache d1 = Map.empty" using c1 d by simp
  from peek_empty_cache[OF e assms(3), of SubUndefined now'] obtain d' where
    "Dht_peek sha1 d1 k SubUndefined now' = Inr (d', PValue Null)" by blast
  with out e show ?thesis by simp
qed

theorem set_on_empty_node_stores_nothing_witness:
  "new_Dht Id_zero ex_opts = Inr ex_dht_fresh \<and> 0 < concurrency ex_opts \<and>
   Id_fromKey sha1_hello (KeyStr ''hello'') = Inr (Id sha1_of_hello) \<and>
   (\<exists>out d'. Dht_set sha1_hello ex_dht_fresh (KeyStr ''hello'') (Str ''world'') 0 = Inr out \<and>
      so_called_back out \<and> so_requests out = [] \<and> cache (so_dht out) = Map.empty \<and>
      Dht_peek sha1_hello (so_dht out) (KeyStr ''hello'') SubUndefined 1 = Inr (d', PValue Null))"
  using set_on_empty_node_stores_nothing[OF new_Dht_ex concurrency_ex fromKey_hello, of "Str ''world''" 0 1]
    new_Dht_ex concurrency_ex fromKey_hello by simp

text \<open>
  Claim C1 as stated fails: on the node \<open>0x00\<dots>00\<close> with the default options,
  \<open>set("hello", "world", cb)\<close> calls \<open>cb\<close>, and then \<open>peek("hello")\<close> returns
  \<open>null\<close>, not \<open>"world"\<close>; the cache has no entry under the id of \<open>"hello"\<close>.
\<close>

theorem set_then_peek_counterexample:
  "new_Dht Id_zero ex_opts = Inr ex_dht_fresh \<and>
   Dht_set sha1_hello ex_dht_fresh (KeyStr ''hello'') (Str ''world'') 0 =
     Inr \<lparr>so_dht = ex_dht_refreshed, so_requests = [], so_called_back = True\<rparr> \<and>
   Dht_peek sha1_hello ex_dht_refreshed (KeyStr ''hello'') SubUndefined 0 =
     Inr (ex_dht_refreshed, PValue Null) \<and>
   PValue Null \<noteq> PValue (Str ''world'') \<and>
   cache ex_dht_refreshed (Id_toString (Id sha1_of_hello)) = None"
proof -
  have r: "root (routes ex_dht_fresh) = Leaf \<lparr>capacity = 20, prefix = [], store = [], refreshed = None\<rparr>"
    by (simp add: ex_dht_fresh_def)
  have refl_store: "store \<lparr>capacity = 20, prefix = [], store = [], refreshed = None\<rparr> = []" by simp
  have o: "opts ex_dht_refreshed = ex_opts" "concurrency ex_opts = 3" "opt_bucketSize ex_opts = 20"
    by (simp_all add: ex_dht_refreshed_def ex_opts_def defaultOptions_def)
  have pe: "\<And>fnv. Lookup_proceed fnv (new_Lookup (Id sha1_of_hello) None SubUndefined [] 20 3) =
      Inr (new_Lookup (Id sha1_of_hello) None SubUndefined [] 20 3, [], Some (Finished [] None None []))"
    by (rule proceed_empty) simp
  have rr: "ex_dht_fresh\<lparr>routes := routes ex_dht_fresh
      \<lparr>root := Leaf (\<lparr>capacity = 20, prefix = [], store = [], refreshed = None\<rparr>\<lparr>refreshed := Some 0\<rparr>)\<rparr>\<rparr>
      = ex_dht_refreshed"
    by (simp add: ex_dht_fresh_def ex_dht_refreshed_def)
  have it: "Dht_iterativeFindNode ex_dht_fresh (Id sha1_of_hello) 0 =
      Inr (ex_dht_refreshed, new_Lookup (Id sha1_of_hello) None SubUndefined [] 20 3, [],
           Some (Finished [] None None []))"
    unfolding Dht_iterativeFindNode_def
    by (simp only: find_empty_leaf[OF r refl_store] markRefreshed_leaf[OF r] Let_def sum.case
          Dht.simps rr o pe prod.case)
  have s: "Dht_set sha1_hello ex_dht_fresh (KeyStr ''hello'') (Str ''world'') 0 =
     Inr \<lparr>so_dht = ex_dht_refreshed, so_requests = [], so_called_back = True\<rparr>"
    using it fromKey_hello by (simp add: Dht_set_def Dht_multiset_def)
  have e: "Dht_expireCache ex_dht_refreshed 0 = ex_dht_refreshed"
    by (simp add: Dht_expireCache_def ex_dht_refreshed_def)
  have p: "Dht_peek sha1_hello ex_dht_refreshed (KeyStr ''hello'') SubUndefined 0 =
     Inr (ex_dht_refreshed, PValue Null)"
    using fromKey_hello
    by (simp add: Dht_peek_def Dht_findFromCache_def e Let_def cached_value_def)
       (simp add: ex_dht_refreshed_def cached_value_def Let_def)
  show ?thesis using new_Dht_ex s p by (simp add: ex_dht_refreshed_def)
qed

section \<open>Values gathered by a lookup\<close>

lemma map_of_obj_replace:
  "map_of kvs k = Some old \<Longrightarrow> map_of (obj_replace k v kvs) = (map_of kvs)(k \<mapsto> v)"
  by (induction kvs) (auto simp: fun_eq_iff)

lemma map_of_obj_insert:
  "map_of kvs k = None \<Longrightarrow> map_of (obj_insert n k v kvs) = (map_of kvs)(k \<mapsto> v)"
proof (induction kvs)
  case Nil
  then show ?case
    by simp
next
  case (Cons kv kvs)
  obtain k' v' where kv: "kv = (k', v')"
    by (cases kv)
  from Cons.prems kv have ne: "k' \<noteq> k" and rest: "map_of kvs k = None"
    by (auto split: if_splits)
  from Cons.IH[OF rest] have ih: "map_of (obj_insert n k v kvs) = (map_of kvs)(k \<mapsto> v)" .
  show ?case
    using ne ih by (cases "array_index k'") (auto simp: kv fun_eq_iff)
qed

lemma map_of_append_new:
  "map_of kvs k = None \<Longrightarrow> map_of (kvs @ [(k, v)]) = (map_of kvs)(k \<mapsto> v)"
  by (auto simp: fun_eq_iff map_add_def split: option.splits)

lemma map_of_obj_set: "map_of (obj_set k v kvs) = (map_of kvs)(k \<mapsto> v)"
proof (cases "map_of kvs k")
  case None
  then show ?thesis
    using map_of_obj_insert[OF None] map_of_append_new[OF None]
    by (cases "array_index k") (simp_all add: obj_set_def del: map_of_append)
next
  case (Some old)
  then show ?thesis
    using map_of_obj_replace[OF Some] by (simp add: obj_set_def)
qed

lemma js_get_Obj_plain:
  "k \<notin> set Object_prototype_names \<Longrightarrow>
     js_get (Obj t) k = Inr (case map_of t k of None \<Rightarrow> Undefined | Some v \<Rightarrow> v)"
  by (simp add: get_prop_def split: option.splits)

lemma record_values_step:
  assumes "k \<notin> set Object_prototype_names"
  shows "record_values c (Obj t) ((k, w) # kvs) L =
     (if (case map_of (l_srccontact L) k of None \<Rightarrow> False
          | Some q \<Rightarrow> compareDistance (l_targetId L) (contact_id q) (contact_id c) \<ge> 0)
      then record_values c (Obj t) kvs L
      else record_values c (Obj t) kvs
             (record_timeout k (case map_of t k of None \<Rightarrow> Undefined | Some x \<Rightarrow> x)
                (record_source k w c L)))"
  using assms by (simp add: get_prop_def js_get_Obj_plain Let_def split: option.splits)

lemma recorded_other:
  "k \<noteq> s \<Longrightarrow>
     source_of (record_timeout k x (record_source k w c L)) s = source_of L s \<and>
     value_of (record_timeout k x (record_source k w c L)) s = value_of L s \<and>
     l_targetId (record_timeout k x (record_source k w c L)) = l_targetId L"
  by (auto simp: record_timeout_def record_source_def source_of_def value_of_def map_of_obj_set
        split: option.splits)

lemma recorded_key:
  "source_of (record_timeout k x (record_source k w c L)) k = Some c \<and>
   value_of (record_timeout k x (record_source k w c L)) k = Some w"
  by (simp add: record_timeout_def record_source_def source_of_def value_of_def map_of_obj_set)

lemma record_values_other:
  "s \<notin> fst ` set kvs \<Longrightarrow> list_all (\<lambda>kv. fst kv \<notin> set Object_prototype_names) kvs \<Longrightarrow>
     record_values c (Obj t) kvs L = (L', e) \<Longrightarrow>
     source_of L' s = source_of L s \<and> value_of L' s = value_of L s \<and> e = None
     \<and> l_targetId L' = l_targetId L \<and> l_abort L' = l_abort L"
proof (induction kvs arbitrary: L)
  case Nil
  then show ?case
    by simp
next
  case (Cons kv kvs)
  obtain k w where kv: "kv = (k, w)"
    by (cases kv)
  from Cons.prems kv have ks: "k \<noteq> s" "s \<notin> fst ` set kvs"
    and pl: "k \<notin> set Object_prototype_names"
            "list_all (\<lambda>kv. fst kv \<notin> set Object_prototype_names) kvs"
    by auto
  define L2 where "L2 = record_timeout k (case map_of t k of None \<Rightarrow> Undefined | Some x \<Rightarrow> x)
                          (record_source k w c L)"
  show ?case
  proof (cases "case map_of (l_srccontact L) k of None \<Rightarrow> False
                | Some q \<Rightarrow> compareDistance (l_targetId L) (contact_id q) (contact_id c) \<ge> 0")
    case True
    with Cons.prems(3) kv have "record_values c (Obj t) kvs L = (L', e)"
      by (simp only: record_values_step[OF pl(1)] if_True)
    from Cons.IH[OF ks(2) pl(2) this] show ?thesis .
  next
    case False
    with Cons.prems(3) kv have "record_values c (Obj t) kvs L2 = (L', e)"
      by (simp only: record_values_step[OF pl(1)] if_False L2_def)
    from Cons.IH[OF ks(2) pl(2) this]
    have "source_of L' s = source_of L2 s \<and> value_of L' s = value_of L2 s \<and> e = None
       \<and> l_targetId L' = l_targetId L2 \<and> l_abort L' = l_abort L2" .
    moreover have "l_abort L2 = l_abort L"
      by (simp add: L2_def record_timeout_def record_source_def)
    ultimately show ?thesis
      using recorded_other[OF ks(1), of _ w c L] by (simp add: L2_def)
  qed
qed

lemma record_values_abort:
  "record_values c timeout kvs L = (L', e) \<Longrightarrow> l_abort L' = l_abort L"
proof (induction kvs arbitrary: L)
  case Nil
  then show ?case
    by simp
next
  case (Cons kv kvs)
  obtain k w where kv: "kv = (k, w)"
    by (cases kv)
  have a: "l_abort (record_source k w c L) = l_abort L"
          "\<And>x M. l_abort (record_timeout k x M) = l_abort M"
    by (simp_all add: record_source_def record_timeout_def)
  from Cons.prems kv Cons.IH a show ?case
    by (auto simp: Let_def split: found.splits if_splits sum.splits)
qed

lemma record_values_key:
  assumes "distinct (map fst kvs)" and "(s, v) \<in> set kvs" and "source_of L s = Some p"
    and "list_all (\<lambda>kv. fst kv \<notin> set Object_prototype_names) kvs"
    and "record_values c (Obj t) kvs L = (L', e)"
  shows "e = None \<and>
     (if compareDistance (l_targetId L) (contact_id p) (contact_id c) < 0
      then source_of L' s = Some c \<and> value_of L' s = Some v
      else source_of L' s = Some p \<and> value_of L' s = value_of L s)"
  using assms
proof (induction kvs arbitrary: L)
  case Nil
  then show ?case
    by simp
next
  case (Cons kv kvs)
  obtain k w where kv: "kv = (k, w)"
    by (cases kv)
  from Cons.prems(1) kv have d: "k \<notin> fst ` set kvs" "distinct (map fst kvs)"
    by auto
  from Cons.prems(4) kv have pl: "k \<notin> set Object_prototype_names"
      "list_all (\<lambda>kv. fst kv \<notin> set Object_prototype_names) kvs"
    by auto
  define skip where "skip = (case map_of (l_srccontact L) k of None \<Rightarrow> False
                | Some q \<Rightarrow> compareDistance (l_targetId L) (contact_id q) (contact_id c) \<ge> 0)"
  define L2 where "L2 = record_timeout k (case map_of t k of None \<Rightarrow> Undefined | Some x \<Rightarrow> x)
                          (record_source k w c L)"
  have step: "record_values c (Obj t) (kv # kvs) L =
        (if skip then record_values c (Obj t) kvs L else record_values c (Obj t) kvs L2)"
    by (simp only: kv record_values_step[OF pl(1)] skip_def L2_def)
  show ?case
  proof (cases "k = s")
    case True
    with Cons.prems(2) kv d(1) have wv: "w = v"
      by (auto simp: image_iff)
    from True d(1) have sn: "s \<notin> fst ` set kvs"
      by simp
    from Cons.prems(3) True have sk: "skip = (compareDistance (l_targetId L) (contact_id p) (contact_id c) \<ge> 0)"
      by (simp add: skip_def source_of_def)
    show ?thesis
    proof (cases skip)
      case True
      with step Cons.prems(5) have "record_values c (Obj t) kvs L = (L', e)"
        by simp
      from record_values_other[OF sn pl(2) this] True sk Cons.prems(3) show ?thesis
        by simp
    next
      case False
      with step Cons.prems(5) have "record_values c (Obj t) kvs L2 = (L', e)"
        by simp
      from record_values_other[OF sn pl(2) this]
      have "source_of L' s = source_of L2 s" "value_of L' s = value_of L2 s" "e = None"
        by simp_all
      moreover have "source_of L2 s = Some c" "value_of L2 s = Some v"
        using \<open>k = s\<close> wv recorded_key[of k _ w c L] by (simp_all add: L2_def)
      ultimately show ?thesis
        using False sk by simp
    qed
  next
    case False
    with Cons.prems(2) kv have mem: "(s, v) \<in> set kvs"
      by auto
    show ?thesis
    proof (cases skip)
      case True
      with step Cons.prems(5) have "record_values c (Obj t) kvs L = (L', e)"
        by simp
      from Cons.IH[OF d(2) mem Cons.prems(3) pl(2) this] show ?thesis .
    next
      case nskip: False
      with step Cons.prems(5) have r: "record_values c (Obj t) kvs L2 = (L', e)"
        by simp
      have s2: "source_of L2 s = Some p" "value_of L2 s = value_of L s" "l_targetId L2 = l_targetId L"
        using False Cons.prems(3) recorded_other[of k s _ w c L] by (simp_all add: L2_def)
      from Cons.IH[OF d(2) mem s2(1) pl(2) r] s2 show ?thesis
        by simp
    qed
  qed
qed

lemma proceed_loop_keeps:
  "proceed_loop fnv n L out = Inr (L', reqs, res) \<Longrightarrow>
     l_value L' = l_value L \<and> l_srccontact L' = l_srccontact L"
proof (induction n arbitrary: L out)
  case 0
  then show ?case
    by simp
next
  case (Suc n)
  obtain lst nx where nx: "LookupList_next (l_list L) = (lst, nx)"
    by (cases "LookupList_next (l_list L)")
  show ?case
  proof (cases nx)
    case None
    with Suc.prems nx show ?thesis
      by (auto split: if_splits)
  next
    case (Some contact)
    define L1 where "L1 = L\<lparr>l_list := lst, l_concurrents := l_concurrents L + 1\<rparr>"
    from Suc.prems nx Some obtain request where
      "proceed_loop fnv n L1 (out @ [request]) = Inr (L', reqs, res)"
      by (auto simp: Let_def L1_def split: sum.splits)
    from Suc.IH[OF this] show ?thesis
      by (simp add: L1_def)
  qed
qed

lemma forContact_response_all:
  assumes "\<not> l_abort L" and "l_subkey L = SubNull" and "\<not> r_err r" and "r_value r = Obj kvs"
    and "record_values c (r_timeout r) kvs
           (case r_contacts r of None \<Rightarrow> L
            | Some cs \<Rightarrow> L\<lparr>l_list := LookupList_insertMany (l_list L) cs\<rparr>) = (L2, None)"
  shows "l_value (fst (forContact_response fnv L c r)) = l_value L2
      \<and> l_srccontact (fst (forContact_response fnv L c r)) = l_srccontact L2"
proof -
  define L1 where "L1 = (case r_contacts r of None \<Rightarrow> L
                         | Some cs \<Rightarrow> L\<lparr>l_list := LookupList_insertMany (l_list L) cs\<rparr>)"
  have p: "l_subkey L1 = SubNull" "l_abort L1 = l_abort L"
    using assms(2) by (simp_all add: L1_def split: option.splits)
  have rv: "record_values c (r_timeout r) kvs L1 = (L2, None)"
    using assms(5) by (simp add: L1_def)
  from record_values_abort[OF rv] p assms(1) have ab: "\<not> l_abort L2"
    by simp
  define L3 where "L3 = L2\<lparr>l_concurrents := l_concurrents L2 - 1\<rparr>"
  define L3' where "L3' = L3\<lparr>l_depth := l_depth L3 + 1\<rparr>"
  show ?thesis
  proof (cases "l_concurrents L3 = 0 \<and> \<not> l_abort L3")
    case False
    then have "fst (forContact_response fnv L c r) = L3"
      using assms(1-4) rv p
      by (auto simp: forContact_response_def Let_def L1_def[symmetric] L3_def split: option.splits)
    then show ?thesis
      by (simp add: L3_def)
  next
    case True
    show ?thesis
    proof (cases "Lookup_proceed fnv L3'")
      case (Inl err)
      then have "fst (forContact_response fnv L c r) = L3'"
        using assms(1-4) rv p True
        by (auto simp: forContact_response_def Let_def L1_def[symmetric] L3_def L3'_def split: option.splits)
      then show ?thesis
        by (simp add: L3_def L3'_def)
    next
      case (Inr x)
      obtain L4 reqs res where x: "x = (L4, reqs, res)"
        by (cases x)
      with Inr have "fst (forContact_response fnv L c r) = L4"
        using assms(1-4) rv p True
        by (auto simp: forContact_response_def Let_def L1_def[symmetric] L3_def L3'_def split: option.splits)
      moreover from Inr x have "l_value L4 = l_value L3' \<and> l_srccontact L4 = l_srccontact L3'"
        using proceed_loop_keeps[of fnv "l_concurrency L3'" L3' "[]" L4 reqs res]
        by (simp add: Lookup_proceed_def)
      ultimately show ?thesis
        by (simp add: L3_def L3'_def)
    qed
  qed
qed

text \<open>
  The rule of the claim holds for a response that carries an object of timeouts and no
  subkey named like a member of \<open>Object.prototype\<close>: a subkey \<open>s\<close> of the response
  with the source \<open>p\<close> on record gets the responder \<open>c\<close> as its source, and the value
  of the response, exactly when \<open>c\<close> is strictly closer to the target than \<open>p\<close> in XOR
  distance.
\<close>

lemma tie_break_with_timeouts:
  assumes "\<not> l_abort L" and "l_subkey L = SubNull"
    and "\<not> r_err r" and "r_value r = Obj kvs" and "r_timeout r = Obj t"
    and "distinct (map fst kvs)" and "(s, v) \<in> set kvs"
    and "list_all (\<lambda>kv. fst kv \<notin> set Object_prototype_names) kvs"
    and "source_of L s = Some p"
  shows "(if xor_distance (l_targetId L) (contact_id c) < xor_distance (l_targetId L) (contact_id p)
          then source_of (fst (forContact_response fnv L c r)) s = Some c \<and>
               value_of (fst (forContact_response fnv L c r)) s = Some v
          else source_of (fst (forContact_response fnv L c r)) s = Some p \<and>
               value_of (fst (forContact_response fnv L c r)) s = value_of L s)"
proof -
  define L1 where "L1 = (case r_contacts r of None \<Rightarrow> L
                         | Some cs \<Rightarrow> L\<lparr>l_list := LookupList_insertMany (l_list L) cs\<rparr>)"
  have l: "l_srccontact L1 = l_srccontact L" "l_value L1 = l_value L" "l_targetId L1 = l_targetId L"
    by (simp_all add: L1_def split: option.splits)
  obtain L2 e where rv: "record_values c (Obj t) kvs L1 = (L2, e)"
    by (cases "record_values c (Obj t) kvs L1")
  have s1: "source_of L1 s = Some p"
    using assms(9) l(1) by (simp add: source_of_def)
  have v1: "value_of L1 s = value_of L s"
    using l(2) by (simp add: value_of_def)
  from record_values_key[OF assms(6,7) s1 assms(8) rv]
  have e: "e = None" and k: "(if compareDistance (l_targetId L1) (contact_id p) (contact_id c) < 0
      then source_of L2 s = Some c \<and> value_of L2 s = Some v
      else source_of L2 s = Some p \<and> value_of L2 s = value_of L1 s)"
    by simp_all
  from rv e assms(5) have "record_values c (r_timeout r) kvs L1 = (L2, None)"
    by simp
  from forContact_response_all[OF assms(1-4) this[unfolded L1_def], of fnv]
  have f: "source_of (fst (forContact_response fnv L c r)) s = source_of L2 s"
          "value_of (fst (forContact_response fnv L c r)) s = value_of L2 s"
    by (simp_all add: source_of_def value_of_def)
  from k l(3) v1 f show ?thesis
    by (simp add: compareDistance_neg_iff)
qed

text \<open>
  So it does on the lookup and the response of the examples: the responder
  \<open>0x00\<dots>01\<close> is strictly closer to the target than \<open>0x80\<dots>01\<close> and takes its
  place as the source of \<open>s\<close>.
\<close>

lemma timed_response_replaces_source:
  "source_of (fst (forContact_response fnv ex_lookup (ex_contact 0 1 ''b'') ex_response_timed)) ''s''
     = Some (ex_contact 0 1 ''b'') \<and>
   value_of (fst (forContact_response fnv ex_lookup (ex_contact 0 1 ''b'') ex_response_timed)) ''s''
     = Some (Str ''new'')"
proof -
  have h1: "\<not> l_abort ex_lookup" and h2: "l_subkey ex_lookup = SubNull"
    by (simp_all add: ex_lookup_def)
  have h3: "\<not> r_err ex_response_timed"
    and h4: "r_value ex_response_timed = Obj [(''a'', Str ''x''), (''s'', Str ''new'')]"
    and h5: "r_timeout ex_response_timed = Obj [(''a'', Num 1000), (''s'', Num 2000)]"
    by (simp_all add: ex_response_timed_def)
  have h6: "distinct (map fst [(''a'', Str ''x''), (''s'', Str ''new'')])"
    by simp
  have h7: "(''s'', Str ''new'') \<in> set [(''a'', Str ''x''), (''s'', Str ''new'')]"
    by simp
  have h8: "list_all (\<lambda>kv. fst kv \<notin> set Object_prototype_names)
              [(''a'', Str ''x''), (''s'', Str ''new'')]"
    by (simp add: Object_prototype_names_def)
  have h9: "source_of ex_lookup ''s'' = Some (ex_contact 128 1 ''a'')"
    by (simp add: ex_lookup_def source_of_def)
  have "compareDistance Id_zero (ex_id 0 1) (ex_id 128 1) > 0"
    by code_simp
  then have "xor_distance Id_zero (ex_id 0 1) < xor_distance Id_zero (ex_id 128 1)"
    by (simp only: compareDistance_pos_iff)
  then have lt: "xor_distance (l_targetId ex_lookup) (contact_id (ex_contact 0 1 ''b''))
     < xor_distance (l_targetId ex_lookup) (contact_id (ex_contact 128 1 ''a''))"
    by (simp add: ex_lookup_def ex_contact_def new_Contact_def)
  from tie_break_with_timeouts[OF h1 h2 h3 h4 h5 h6 h7 h8 h9, of "ex_contact 0 1 ''b''" fnv] lt
  show ?thesis
    by simp
qed


section \<open>Invariants of the routing table\<close>

text \<open>
  A table built by the constructor and changed only by its own operations keeps the shape
  \<open>rt_inv\<close>; on such a table no operation throws.
\<close>


subsection \<open>Buckets\<close>

lemma remove_loop_subset: "set (fst (remove_loop cs i)) \<subseteq> set cs"
  by (induction cs) (auto split: prod.splits)

lemma remove_loop_distinct: "distinct_ids cs \<Longrightarrow> distinct_ids (fst (remove_loop cs i))"
proof (induction cs)
  case Nil then show ?case by simp
next
  case (Cons c cs)
  then show ?case using remove_loop_subset[of cs i] by (auto split: prod.splits)
qed

lemma remove_loop_gone:
  "distinct_ids cs \<Longrightarrow> c \<in> set (fst (remove_loop cs i)) \<Longrightarrow> \<not> Id_equal (contact_id c) i"
proof (induction cs)
  case Nil then show ?case by simp
next
  case (Cons a cs)
  show ?case
  proof (cases "Id_equal (contact_id a) i")
    case True
    with Cons.prems have cin: "c \<in> set cs" by simp
    with Cons.prems(1) have "\<not> Id_equal (contact_id c) (contact_id a)" by simp
    with True show ?thesis using Id_equal_trans Id_equal_sym by blast
  next
    case False
    with Cons show ?thesis by (auto split: prod.splits)
  qed
qed

lemma remove_loop_result:
  "snd (remove_loop cs i) = Some c \<Longrightarrow> c \<in> set cs \<and> Id_equal (contact_id c) i"
  by (induction cs) (auto split: prod.splits if_splits)

lemma distinct_ids_snoc:
  "distinct_ids (cs @ [c]) = (distinct_ids cs \<and> (\<forall>c' \<in> set cs. \<not> Id_equal (contact_id c') (contact_id c)))"
  by (induction cs) (auto dest: Id_equal_sym)

lemma Bucket_remove_props:
  "Bucket_remove b i = (b', r) \<Longrightarrow>
     set (store b') \<subseteq> set (store b) \<and> capacity b' = capacity b \<and>
     (distinct_ids (store b) \<longrightarrow> distinct_ids (store b') \<and>
        (\<forall>c \<in> set (store b'). \<not> Id_equal (contact_id c) i))"
  using remove_loop_subset[of "store b" i] remove_loop_distinct[of "store b" i]
    remove_loop_gone[of "store b" _ i]
  by (auto simp: Bucket_remove_def split: prod.splits)

lemma Bucket_store_props:
  assumes "Bucket_store b c = (b', ok)"
  shows "set (store b') \<subseteq> set (store b) \<union> {c}" "capacity b' = capacity b"
    "distinct_ids (store b) \<Longrightarrow> distinct_ids (store b')"
    "distinct_ids (store b) \<Longrightarrow> \<forall>c' \<in> set (store b'). Id_equal (contact_id c') (contact_id c) \<longrightarrow> c' = c"
    "\<not> ok \<Longrightarrow> length (store b') = capacity b'"
proof -
  obtain b1 r where br: "Bucket_remove b (contact_id c) = (b1, r)" by (cases "Bucket_remove b (contact_id c)")
  note p = Bucket_remove_props[OF br]
  from assms br have b': "b' = (if length (store b1) = capacity b1 then b1 else b1\<lparr>store := store b1 @ [c]\<rparr>)"
    and ok: "ok = (length (store b1) \<noteq> capacity b1)"
    by (auto simp: Bucket_store_def Let_def split: if_splits)
  show "set (store b') \<subseteq> set (store b) \<union> {c}" using p b' by auto
  show "capacity b' = capacity b" using p b' by auto
  show "distinct_ids (store b) \<Longrightarrow> distinct_ids (store b')" using p b' by (auto simp: distinct_ids_snoc)
  show "distinct_ids (store b) \<Longrightarrow> \<forall>c' \<in> set (store b'). Id_equal (contact_id c') (contact_id c) \<longrightarrow> c' = c"
    using p b' by (auto split: if_splits)
  show "\<not> ok \<Longrightarrow> length (store b') = capacity b'" using b' ok by auto
qed

lemma Bucket_split_loop_props:
  assumes "Bucket_split_loop cs n l r = (l', r')"
  shows "set (store l') \<subseteq> set (store l) \<union> {c \<in> set cs. \<not> Id_at (contact_id c) n}
       \<and> set (store r') \<subseteq> set (store r) \<union> {c \<in> set cs. Id_at (contact_id c) n}
       \<and> capacity l' = capacity l \<and> capacity r' = capacity r
       \<and> (distinct_ids (store l) \<longrightarrow> distinct_ids (store l'))
       \<and> (distinct_ids (store r) \<longrightarrow> distinct_ids (store r'))"
  using assms
proof (induction cs arbitrary: l r)
  case Nil then show ?case by simp
next
  case (Cons c cs)
  show ?case
  proof (cases "Id_at (contact_id c) n")
    case True
    obtain r1 ok where s: "Bucket_store r c = (r1, ok)" by (cases "Bucket_store r c")
    with True Cons.prems have "Bucket_split_loop cs n l r1 = (l', r')" by simp
    from Cons.IH[OF this] Bucket_store_props(1-3)[OF s] True show ?thesis by auto
  next
    case False
    obtain l1 ok where s: "Bucket_store l c = (l1, ok)" by (cases "Bucket_store l c")
    with False Cons.prems have "Bucket_split_loop cs n l1 r = (l', r')" by simp
    from Cons.IH[OF this] Bucket_store_props(1-3)[OF s] False show ?thesis by auto
  qed
qed



subsection \<open>Trees\<close>

lemma tree_inv_height: "tree_inv p t \<Longrightarrow> length p + height_node t < BIT_SIZE"
proof (induction t arbitrary: p)
  case (Leaf b) then show ?case by simp
next
  case (Node l r)
  from Node.IH(1)[of "p @ [False]"] Node.IH(2)[of "p @ [True]"] Node.prems show ?case by auto
qed

lemma on_path_butlast: "on_path (p @ [d]) x \<Longrightarrow> on_path p x"
  by (simp add: on_path_snoc)

lemma tree_inv_on_path:
  "tree_inv p t \<Longrightarrow> c \<in> set (contacts_of t) \<Longrightarrow> on_path p (contact_id c)"
proof (induction t arbitrary: p)
  case (Leaf b) then show ?case by simp
next
  case (Node l r)
  from Node.prems(2) consider "c \<in> set (contacts_of l)" | "c \<in> set (contacts_of r)" by auto
  then show ?case
  proof cases
    case 1 with Node.IH(1)[of "p @ [False]"] Node.prems(1) show ?thesis by (auto dest: on_path_butlast)
  next
    case 2 with Node.IH(2)[of "p @ [True]"] Node.prems(1) show ?thesis by (auto dest: on_path_butlast)
  qed
qed

lemma upt_path_step:
  "n < m \<Longrightarrow> p @ map f [n..<m] = (p @ [f n]) @ map f [Suc n..<m]"
  by (simp add: upt_conv_Cons)

lemma find_leaf_inv:
  assumes "tree_inv p t" and "find_leaf i (length p) t = (m, b)" and "on_path p i"
  shows "tree_inv (p @ map (Id_at i) [length p..<m]) (Leaf b) \<and>
         on_path (p @ map (Id_at i) [length p..<m]) i \<and> length p \<le> m \<and>
         set (store b) \<subseteq> set (contacts_of t)"
  using assms
proof (induction t arbitrary: p)
  case (Leaf b') then show ?case by simp
next
  case (Node l r)
  let ?n = "length p"
  let ?d = "Id_at i ?n"
  let ?sub = "if ?d then r else l"
  from Node.prems(2) have f: "find_leaf i (length (p @ [?d])) ?sub = (m, b)" by simp
  have lt: "?n < m" using find_leaf_ge[of "?n + 1" i ?sub] f by simp
  have e: "p @ map (Id_at i) [?n..<m] = (p @ [?d]) @ map (Id_at i) [length (p @ [?d])..<m]"
    using upt_path_step[OF lt, of p "Id_at i"] by simp
  show ?case
  proof (cases ?d)
    case True
    from Node.prems(1) have inv: "tree_inv (p @ [True]) r" by simp
    from f True have f': "find_leaf i (length (p @ [True])) r = (m, b)" by simp
    from Node.prems(3) True have op: "on_path (p @ [True]) i" by (simp add: on_path_snoc)
    from e True have e': "p @ map (Id_at i) [?n..<m] = (p @ [True]) @ map (Id_at i) [length (p @ [True])..<m]"
      by simp
    from Node.IH(2)[OF inv f' op] have
      "tree_inv ((p @ [True]) @ map (Id_at i) [length (p @ [True])..<m]) (Leaf b)"
      "on_path ((p @ [True]) @ map (Id_at i) [length (p @ [True])..<m]) i"
      "set (store b) \<subseteq> set (contacts_of r)" by blast+
    then show ?thesis unfolding e' using lt by auto
  next
    case False
    from Node.prems(1) have inv: "tree_inv (p @ [False]) l" by simp
    from f False have f': "find_leaf i (length (p @ [False])) l = (m, b)" by simp
    from Node.prems(3) False have op: "on_path (p @ [False]) i" by (simp add: on_path_snoc)
    from e False have e': "p @ map (Id_at i) [?n..<m] = (p @ [False]) @ map (Id_at i) [length (p @ [False])..<m]"
      by simp
    from Node.IH(1)[OF inv f' op] have
      "tree_inv ((p @ [False]) @ map (Id_at i) [length (p @ [False])..<m]) (Leaf b)"
      "on_path ((p @ [False]) @ map (Id_at i) [length (p @ [False])..<m]) i"
      "set (store b) \<subseteq> set (contacts_of l)" by blast+
    then show ?thesis unfolding e' using lt by auto
  qed
qed

lemma update_leaf_inv:
  assumes "tree_inv p t" and "find_leaf i (length p) t = (m, b)"
    and "tree_inv (p @ map (Id_at i) [length p..<m]) new"
  shows "tree_inv p (update_leaf i (length p) new t)"
  using assms
proof (induction t arbitrary: p)
  case (Leaf b') then show ?case by simp
next
  case (Node l r)
  let ?n = "length p"
  let ?d = "Id_at i ?n"
  let ?sub = "if ?d then r else l"
  from Node.prems(2) have f: "find_leaf i (length (p @ [?d])) ?sub = (m, b)" by simp
  have lt: "?n < m" using find_leaf_ge[of "?n + 1" i ?sub] f by simp
  have e: "p @ map (Id_at i) [?n..<m] = (p @ [?d]) @ map (Id_at i) [length (p @ [?d])..<m]"
    using upt_path_step[OF lt, of p "Id_at i"] by simp
  from Node.prems(3) have n: "tree_inv ((p @ [?d]) @ map (Id_at i) [length (p @ [?d])..<m]) new"
    unfolding e .
  show ?case
  proof (cases ?d)
    case True
    with f have f': "find_leaf i (length (p @ [True])) r = (m, b)" by simp
    from n True have n': "tree_inv ((p @ [True]) @ map (Id_at i) [length (p @ [True])..<m]) new"
      by (simp only: if_True)
    from Node.prems(1) have "tree_inv (p @ [True]) r" by simp
    from Node.IH(2)[OF this f' n'] Node.prems(1) True show ?thesis by simp
  next
    case False
    with f have f': "find_leaf i (length (p @ [False])) l = (m, b)" by simp
    from n False have n': "tree_inv ((p @ [False]) @ map (Id_at i) [length (p @ [False])..<m]) new"
      by (simp only: if_False)
    from Node.prems(1) have "tree_inv (p @ [False]) l" by simp
    from Node.IH(1)[OF this f' n'] Node.prems(1) False show ?thesis by simp
  qed
qed

lemma update_leaf_contacts:
  "set (contacts_of (update_leaf i n new t)) \<subseteq> set (contacts_of t) \<union> set (contacts_of new)"
  by (induction t arbitrary: n) auto

lemma update_leaf_contacts_new:
  "set (contacts_of new) \<subseteq> set (contacts_of (update_leaf i n new t))"
  by (induction t arbitrary: n) auto

lemma update_leaf_equal_in_new:
  assumes "tree_inv p t" and "on_path p x"
    and "c \<in> set (contacts_of (update_leaf x (length p) new t))"
    and "Id_equal (contact_id c) x"
  shows "c \<in> set (contacts_of new)"
  using assms
proof (induction t arbitrary: p)
  case (Leaf b) then show ?case by simp
next
  case (Node l r)
  let ?n = "length p"
  have nb: "?n < BIT_SIZE" using tree_inv_height[OF Node.prems(1)] by simp
  have same: "Id_at (contact_id c) ?n = Id_at x ?n" using Id_equal_at[OF Node.prems(4) nb] .
  show ?case
  proof (cases "Id_at x ?n")
    case True
    from Node.prems(3) True consider "c \<in> set (contacts_of l)"
      | "c \<in> set (contacts_of (update_leaf x (length (p @ [True])) new r))" by auto
    then show ?thesis
    proof cases
      case 1
      from Node.prems(1) have "tree_inv (p @ [False]) l" by simp
      from tree_inv_on_path[OF this 1] have "Id_at (contact_id c) ?n = False" by (simp add: on_path_snoc)
      with same True show ?thesis by simp
    next
      case 2
      from Node.prems(1) have i: "tree_inv (p @ [True]) r" by simp
      from Node.prems(2) True have o: "on_path (p @ [True]) x" by (simp add: on_path_snoc)
      from Node.IH(2)[OF i o 2 Node.prems(4)] show ?thesis .
    qed
  next
    case False
    from Node.prems(3) False consider "c \<in> set (contacts_of r)"
      | "c \<in> set (contacts_of (update_leaf x (length (p @ [False])) new l))" by auto
    then show ?thesis
    proof cases
      case 1
      from Node.prems(1) have "tree_inv (p @ [True]) r" by simp
      from tree_inv_on_path[OF this 1] have "Id_at (contact_id c) ?n = True" by (simp add: on_path_snoc)
      with same False show ?thesis by simp
    next
      case 2
      from Node.prems(1) have i: "tree_inv (p @ [False]) l" by simp
      from Node.prems(2) False have o: "on_path (p @ [False]) x" by (simp add: on_path_snoc)
      from Node.IH(1)[OF i o 2 Node.prems(4)] show ?thesis .
    qed
  qed
qed

lemma on_path_Nil: "on_path [] x"
  by (simp add: on_path_def)



subsection \<open>Operations of the table as updates of a leaf\<close>

lemma find_leaf_update_leaf:
  "fst (find_leaf i n (update_leaf i n (Leaf b') t)) = fst (find_leaf i n t)"
  by (induction t arbitrary: n) auto

lemma update_leaf_twice:
  "update_leaf i n new (update_leaf i n (Leaf b') t) = update_leaf i n new t"
  by (induction t arbitrary: n) auto

lemma findBucket_inv:
  assumes "tree_inv [] (root rt)"
  shows "\<exists>res. findBucket rt i = Some res \<and> find_leaf i 0 (root rt) = (fr_nth res, bucket res)
      \<and> path res = map (Id_at i) [0..<fr_nth res]
      \<and> (\<forall>new. replace_at (path res) new (root rt) = update_leaf i 0 new (root rt))
      \<and> (\<forall>new b'. replace_at (path res) new (update_leaf i 0 (Leaf b') (root rt))
                    = update_leaf i 0 new (root rt))
      \<and> fr_bit res = Id_at i (fr_nth res) \<and> fr_nth res < BIT_SIZE
      \<and> tree_inv (path res) (Leaf (bucket res)) \<and> on_path (path res) i
      \<and> length (path res) = fr_nth res
      \<and> set (store (bucket res)) \<subseteq> set (contacts_of (root rt))"
proof -
  from tree_inv_height[OF assms] have h: "0 + height_node (root rt) < BIT_SIZE" by simp
  from findBucket_loop_total[OF h, of "rt_id rt" i True "[]" "''''"] obtain res where
    f: "findBucket_loop (rt_id rt) i (root rt) 0 True [] '''' = Some res" by blast
  then have fb: "findBucket rt i = Some res" by (simp add: findBucket_def)
  from findBucket_loop_leaf[OF f] have l: "find_leaf i 0 (root rt) = (fr_nth res, bucket res)"
    "fr_bit res = Id_at i (fr_nth res)" "fr_nth res < BIT_SIZE" by simp_all
  from findBucket_loop_path[OF f] have p: "path res = map (Id_at i) [0..<fr_nth res]" by simp
  from l(1) have fl: "fst (find_leaf i 0 (root rt)) = fr_nth res" by simp
  have r1: "\<forall>new. replace_at (path res) new (root rt) = update_leaf i 0 new (root rt)"
    using replace_at_update_leaf[OF fl] p by simp
  have r2: "\<forall>new b'. replace_at (path res) new (update_leaf i 0 (Leaf b') (root rt))
                    = update_leaf i 0 new (root rt)"
  proof (intro allI)
    fix new b'
    have "fst (find_leaf i 0 (update_leaf i 0 (Leaf b') (root rt))) = fr_nth res"
      using find_leaf_update_leaf[of i 0 b' "root rt"] fl by simp
    from replace_at_update_leaf[OF this, of new] p update_leaf_twice[of i 0 new b' "root rt"]
    show "replace_at (path res) new (update_leaf i 0 (Leaf b') (root rt)) = update_leaf i 0 new (root rt)"
      by simp
  qed
  have l0: "find_leaf i (length ([]::bool list)) (root rt) = (fr_nth res, bucket res)" using l(1) by simp
  from find_leaf_inv[OF assms l0 on_path_Nil] p
  have t: "tree_inv (path res) (Leaf (bucket res))" "on_path (path res) i"
    "set (store (bucket res)) \<subseteq> set (contacts_of (root rt))" by simp_all
  have len: "length (path res) = fr_nth res" using p by simp
  from fb l p r1 r2 t len show ?thesis by blast
qed

lemma update_root_inv:
  assumes "tree_inv [] (root rt)" and "find_leaf i 0 (root rt) = (m, b)"
    and "tree_inv (map (Id_at i) [0..<m]) new"
  shows "tree_inv [] (update_leaf i 0 new (root rt))"
proof -
  have f: "find_leaf i (length ([]::bool list)) (root rt) = (m, b)" using assms(2) by simp
  have n: "tree_inv ([] @ map (Id_at i) [length ([]::bool list)..<m]) new" using assms(3) by simp
  from update_leaf_inv[OF assms(1) f n] show ?thesis by simp
qed

lemma update_root_equal:
  assumes "tree_inv [] (root rt)"
    and "c \<in> set (contacts_of (update_leaf x 0 new (root rt)))"
    and "Id_equal (contact_id c) x"
  shows "c \<in> set (contacts_of new)"
proof -
  have "c \<in> set (contacts_of (update_leaf x (length ([]::bool list)) new (root rt)))" using assms(2) by simp
  from update_leaf_equal_in_new[OF assms(1) on_path_Nil this assms(3)] show ?thesis .
qed

lemma removeId_props:
  assumes "tree_inv [] (root rt)"
  shows "\<exists>rt' r. removeId rt i = Inr (rt', r) \<and> tree_inv [] (root rt')
     \<and> set (contacts_of (root rt')) \<subseteq> set (contacts_of (root rt))
     \<and> (\<forall>c \<in> set (contacts_of (root rt')). \<not> Id_equal (contact_id c) i)
     \<and> endpoints rt' = endpoints rt \<and> rt_id rt' = rt_id rt \<and> bucketSize rt' = bucketSize rt"
proof -
  from findBucket_inv[OF assms, of i] obtain res where
    r: "findBucket rt i = Some res" "find_leaf i 0 (root rt) = (fr_nth res, bucket res)"
       "path res = map (Id_at i) [0..<fr_nth res]"
       "\<forall>new. replace_at (path res) new (root rt) = update_leaf i 0 new (root rt)"
       "tree_inv (path res) (Leaf (bucket res))" "on_path (path res) i"
       "set (store (bucket res)) \<subseteq> set (contacts_of (root rt))" by blast
  obtain b' c where br: "Bucket_remove (bucket res) i = (b', c)" by (cases "Bucket_remove (bucket res) i")
  define rt' where "rt' = rt\<lparr>root := update_leaf i 0 (Leaf b') (root rt)\<rparr>"
  have rm: "removeId rt i = Inr (rt', c)" using r(1,4) br by (simp add: removeId_def rt'_def)
  note bp = Bucket_remove_props[OF br]
  have d: "distinct_ids (store (bucket res))" using r(5) by simp
  have li: "tree_inv (path res) (Leaf b')" using r(5) bp by auto
  then have "tree_inv (map (Id_at i) [0..<fr_nth res]) (Leaf b')" using r(3) by simp
  from update_root_inv[OF assms r(2) this] have ti: "tree_inv [] (root rt')" by (simp add: rt'_def)
  have sub: "set (contacts_of (root rt')) \<subseteq> set (contacts_of (root rt))"
    using update_leaf_contacts[of i 0 "Leaf b'" "root rt"] bp r(7) by (auto simp: rt'_def)
  have gone: "\<forall>c \<in> set (contacts_of (root rt')). \<not> Id_equal (contact_id c) i"
  proof
    fix c' assume c': "c' \<in> set (contacts_of (root rt'))"
    show "\<not> Id_equal (contact_id c') i"
    proof
      assume e: "Id_equal (contact_id c') i"
      from c' have "c' \<in> set (contacts_of (update_leaf i 0 (Leaf b') (root rt)))" by (simp add: rt'_def)
      from update_root_equal[OF assms this e] have "c' \<in> set (store b')" by simp
      with bp d e show False by auto
    qed
  qed
  from rm ti sub gone show ?thesis by (auto simp: rt'_def)
qed



lemma addRemoveEndpoint_Some:
  assumes ti: "tree_inv [] (root rt)"
  shows "\<exists>rt'. addRemoveEndpoint rt ep (Some i) = Inr rt' \<and> tree_inv [] (root rt')
     \<and> set (contacts_of (root rt')) \<subseteq> set (contacts_of (root rt))
     \<and> rt_id rt' = rt_id rt \<and> bucketSize rt' = bucketSize rt
     \<and> endpoints rt' = (endpoints rt)(JSON_stringify ep \<mapsto> i)
     \<and> (\<forall>old. endpoints rt (JSON_stringify ep) = Some old \<longrightarrow> \<not> Id_equal old i \<longrightarrow>
           (\<forall>c \<in> set (contacts_of (root rt')). \<not> Id_equal (contact_id c) old))"
proof (cases "endpoints rt (JSON_stringify ep)")
  case None
  then have "addRemoveEndpoint rt ep (Some i) = Inr (rt\<lparr>endpoints := (endpoints rt)(JSON_stringify ep \<mapsto> i)\<rparr>)"
    by (simp add: addRemoveEndpoint_def Let_def)
  with ti None show ?thesis by simp
next
  case (Some old)
  show ?thesis
  proof (cases "Id_equal old i")
    case True
    with Some have "addRemoveEndpoint rt ep (Some i) = Inr (rt\<lparr>endpoints := (endpoints rt)(JSON_stringify ep \<mapsto> i)\<rparr>)"
      by (simp add: addRemoveEndpoint_def Let_def)
    with ti Some True show ?thesis by simp
  next
    case False
    define rt0 where "rt0 = rt\<lparr>endpoints := (endpoints rt)(JSON_stringify ep := None)\<rparr>"
    have ti0: "tree_inv [] (root rt0)" using ti by (simp add: rt0_def)
    from removeId_props[OF ti0, of old] obtain rtR r where
      rm: "removeId rt0 old = Inr (rtR, r)" and tiR: "tree_inv [] (root rtR)"
      and sub: "set (contacts_of (root rtR)) \<subseteq> set (contacts_of (root rt0))"
      and gone: "\<forall>c \<in> set (contacts_of (root rtR)). \<not> Id_equal (contact_id c) old"
      and same: "endpoints rtR = endpoints rt0" "rt_id rtR = rt_id rt0" "bucketSize rtR = bucketSize rt0"
      by blast
    define rt' where "rt' = rtR\<lparr>endpoints := (endpoints rtR)(JSON_stringify ep \<mapsto> i)\<rparr>"
    have a: "addRemoveEndpoint rt ep (Some i) = Inr rt'"
      using Some False rm by (simp add: addRemoveEndpoint_def Let_def rt0_def rt'_def)
    have e: "endpoints rt' = (endpoints rt)(JSON_stringify ep \<mapsto> i)"
      using same(1) by (simp add: rt'_def rt0_def)
    have c: "set (contacts_of (root rt')) \<subseteq> set (contacts_of (root rt))"
      using sub by (simp add: rt'_def rt0_def)
    have g: "\<forall>c \<in> set (contacts_of (root rt')). \<not> Id_equal (contact_id c) old"
      using gone by (simp add: rt'_def)
    have o: "rt_id rt' = rt_id rt" "bucketSize rt' = bucketSize rt" "tree_inv [] (root rt')"
      using same tiR by (simp_all add: rt'_def rt0_def)
    from a e c g o Some show ?thesis by simp
  qed
qed

lemma addRemoveEndpoint_Some_inv:
  assumes ti: "tree_inv [] (root rt)" and ib: "endpoints_inv_but rt (JSON_stringify ep) i"
    and a: "addRemoveEndpoint rt ep (Some i) = Inr rt'"
  shows "endpoints_inv rt'"
proof -
  let ?k = "JSON_stringify ep"
  from addRemoveEndpoint_Some[OF ti, of ep i] a have
    sub: "set (contacts_of (root rt')) \<subseteq> set (contacts_of (root rt))"
    and e: "endpoints rt' = (endpoints rt)(?k \<mapsto> i)"
    and gone: "\<forall>old. endpoints rt ?k = Some old \<longrightarrow> \<not> Id_equal old i \<longrightarrow>
           (\<forall>c \<in> set (contacts_of (root rt')). \<not> Id_equal (contact_id c) old)"
    by auto
  show ?thesis unfolding endpoints_inv_def
  proof
    fix c assume c: "c \<in> set (contacts_of (root rt'))"
    with sub have c0: "c \<in> set (contacts_of (root rt))" by auto
    from ib c0 consider (new) "JSON_stringify (endpoint c) = ?k" "Id_equal (contact_id c) i"
      | (old) j where "endpoints rt (JSON_stringify (endpoint c)) = Some j" "Id_equal j (contact_id c)"
      unfolding endpoints_inv_but_def by blast
    then show "\<exists>j. endpoints rt' (JSON_stringify (endpoint c)) = Some j \<and> Id_equal j (contact_id c)"
    proof cases
      case new
      then show ?thesis using e Id_equal_sym by simp
    next
      case old
      show ?thesis
      proof (cases "JSON_stringify (endpoint c) = ?k")
        case False
        with old e show ?thesis by simp
      next
        case True
        with old have j: "endpoints rt ?k = Some j" by simp
        have "Id_equal j i"
        proof (rule ccontr)
          assume "\<not> Id_equal j i"
          with gone j c have "\<not> Id_equal (contact_id c) j" by blast
          with old(2) Id_equal_sym show False by blast
        qed
        then have "Id_equal i (contact_id c)" using old(2) Id_equal_sym Id_equal_trans by blast
        with True e show ?thesis by simp
      qed
    qed
  qed
qed

lemma addRemoveEndpoint_None:
  assumes ti: "tree_inv [] (root rt)"
  shows "\<exists>rt'. addRemoveEndpoint rt ep None = Inr rt' \<and> tree_inv [] (root rt')
     \<and> set (contacts_of (root rt')) \<subseteq> set (contacts_of (root rt))
     \<and> rt_id rt' = rt_id rt \<and> bucketSize rt' = bucketSize rt
     \<and> (endpoints_inv rt \<longrightarrow> endpoints_inv rt')"
proof (cases "endpoints rt (JSON_stringify ep)")
  case None
  then have "addRemoveEndpoint rt ep None = Inr rt" by (simp add: addRemoveEndpoint_def Let_def)
  with ti show ?thesis by simp
next
  case (Some old)
  let ?k = "JSON_stringify ep"
  define rt0 where "rt0 = rt\<lparr>endpoints := (endpoints rt)(?k := None)\<rparr>"
  have ti0: "tree_inv [] (root rt0)" using ti by (simp add: rt0_def)
  from removeId_props[OF ti0, of old] obtain rtR r where
    rm: "removeId rt0 old = Inr (rtR, r)" and tiR: "tree_inv [] (root rtR)"
    and sub: "set (contacts_of (root rtR)) \<subseteq> set (contacts_of (root rt0))"
    and gone: "\<forall>c \<in> set (contacts_of (root rtR)). \<not> Id_equal (contact_id c) old"
    and same: "endpoints rtR = endpoints rt0" "rt_id rtR = rt_id rt0" "bucketSize rtR = bucketSize rt0"
    by blast
  have a: "addRemoveEndpoint rt ep None = Inr rtR"
    using Some rm by (simp add: addRemoveEndpoint_def Let_def rt0_def)
  have inv: "endpoints_inv rt \<longrightarrow> endpoints_inv rtR"
  proof
    assume j: "endpoints_inv rt"
    show "endpoints_inv rtR" unfolding endpoints_inv_def
    proof
      fix c assume c: "c \<in> set (contacts_of (root rtR))"
      with sub have c0: "c \<in> set (contacts_of (root rt))" by (auto simp: rt0_def)
      with j obtain j' where j': "endpoints rt (JSON_stringify (endpoint c)) = Some j'" "Id_equal j' (contact_id c)"
        unfolding endpoints_inv_def by blast
      have "JSON_stringify (endpoint c) \<noteq> ?k"
      proof
        assume "JSON_stringify (endpoint c) = ?k"
        with j' Some have "Id_equal old (contact_id c)" by simp
        with gone c Id_equal_sym show False by blast
      qed
      with j' same(1) show "\<exists>j. endpoints rtR (JSON_stringify (endpoint c)) = Some j \<and> Id_equal j (contact_id c)"
        by (simp add: rt0_def)
    qed
  qed
  from a tiR sub same inv show ?thesis by (auto simp: rt0_def)
qed



lemma Bucket_store_refused:
  assumes "Bucket_store b c = (b', False)"
  shows "set (store b') \<subseteq> set (store b)"
proof -
  obtain b1 r where br: "Bucket_remove b (contact_id c) = (b1, r)" by (cases "Bucket_remove b (contact_id c)")
  from assms br have "b' = b1" by (auto simp: Bucket_store_def Let_def split: if_splits)
  with Bucket_remove_props[OF br] show ?thesis by simp
qed

lemma Bucket_oldest_full:
  "length (store b) = capacity b \<Longrightarrow> 0 < capacity b \<Longrightarrow> \<exists>old. Bucket_oldest b = Some old"
  by (cases "store b") (auto simp: Bucket_oldest_def)

lemma split_node_inv:
  assumes b1: "tree_inv q (Leaf b1)" and len: "length q + 1 < BIT_SIZE" and k: "0 < k"
    and oc: "on_path q (contact_id c)"
    and l0: "store l0 = []" "capacity l0 = k" and r0: "store r0 = []" "capacity r0 = k"
    and sp: "Bucket_split b1 (length q) l0 r0 = (l1, r1)"
    and st: "if Id_at (contact_id c) (length q) then Bucket_store r1 c = (r2, ok) \<and> l2 = l1
             else Bucket_store l1 c = (l2, ok) \<and> r2 = r1"
  shows "tree_inv q (Node (Leaf l2) (Leaf r2))"
    and "set (store l2) \<union> set (store r2) \<subseteq> set (store b1) \<union> {c}"
proof -
  from sp have "Bucket_split_loop (store b1) (length q) l0 r0 = (l1, r1)" by (simp add: Bucket_split_def)
  from Bucket_split_loop_props[OF this] l0 r0 have
    sl: "set (store l1) \<subseteq> {c \<in> set (store b1). \<not> Id_at (contact_id c) (length q)}"
    and sr: "set (store r1) \<subseteq> {c \<in> set (store b1). Id_at (contact_id c) (length q)}"
    and cap: "capacity l1 = k" "capacity r1 = k"
    and dl: "distinct_ids (store l1)" and dr: "distinct_ids (store r1)" by auto
  from b1 have opb: "\<forall>c' \<in> set (store b1). on_path q (contact_id c')" by simp
  have l2: "set (store l2) \<subseteq> {c' \<in> set (store b1) \<union> {c}. \<not> Id_at (contact_id c') (length q)}"
    "capacity l2 = k" "distinct_ids (store l2)"
  proof -
    show "set (store l2) \<subseteq> {c' \<in> set (store b1) \<union> {c}. \<not> Id_at (contact_id c') (length q)}"
    proof (cases "Id_at (contact_id c) (length q)")
      case True with st sl show ?thesis by auto
    next
      case False
      with st have s: "Bucket_store l1 c = (l2, ok)" by simp
      from Bucket_store_props(1)[OF s] sl False show ?thesis by auto
    qed
    show "capacity l2 = k"
    proof (cases "Id_at (contact_id c) (length q)")
      case True with st cap show ?thesis by simp
    next
      case False
      with st have s: "Bucket_store l1 c = (l2, ok)" by simp
      from Bucket_store_props(2)[OF s] cap show ?thesis by simp
    qed
    show "distinct_ids (store l2)"
    proof (cases "Id_at (contact_id c) (length q)")
      case True with st dl show ?thesis by simp
    next
      case False
      with st have s: "Bucket_store l1 c = (l2, ok)" by simp
      from Bucket_store_props(3)[OF s dl] show ?thesis .
    qed
  qed
  have r2: "set (store r2) \<subseteq> {c' \<in> set (store b1) \<union> {c}. Id_at (contact_id c') (length q)}"
    "capacity r2 = k" "distinct_ids (store r2)"
  proof -
    show "set (store r2) \<subseteq> {c' \<in> set (store b1) \<union> {c}. Id_at (contact_id c') (length q)}"
    proof (cases "Id_at (contact_id c) (length q)")
      case False with st sr show ?thesis by auto
    next
      case True
      with st have s: "Bucket_store r1 c = (r2, ok)" by simp
      from Bucket_store_props(1)[OF s] sr True show ?thesis by auto
    qed
    show "capacity r2 = k"
    proof (cases "Id_at (contact_id c) (length q)")
      case False with st cap show ?thesis by simp
    next
      case True
      with st have s: "Bucket_store r1 c = (r2, ok)" by simp
      from Bucket_store_props(2)[OF s] cap show ?thesis by simp
    qed
    show "distinct_ids (store r2)"
    proof (cases "Id_at (contact_id c) (length q)")
      case False with st dr show ?thesis by simp
    next
      case True
      with st have s: "Bucket_store r1 c = (r2, ok)" by simp
      from Bucket_store_props(3)[OF s dr] show ?thesis .
    qed
  qed
  have opl: "\<forall>c' \<in> set (store l2). on_path (q @ [False]) (contact_id c')"
    using l2(1) opb oc by (auto simp: on_path_snoc)
  have opr: "\<forall>c' \<in> set (store r2). on_path (q @ [True]) (contact_id c')"
    using r2(1) opb oc by (auto simp: on_path_snoc)
  show "tree_inv q (Node (Leaf l2) (Leaf r2))"
    using len k l2(2,3) r2(2,3) opl opr by simp
  show "set (store l2) \<union> set (store r2) \<subseteq> set (store b1) \<union> {c}"
    using l2(1) r2(1) by auto
qed

lemma splitAndStore_eq:
  assumes k: "0 < bucketSize rt"
  shows "\<exists>l0 r0 l1 r1 l2 r2 ok.
      store l0 = [] \<and> capacity l0 = bucketSize rt \<and> store r0 = [] \<and> capacity r0 = bucketSize rt
    \<and> Bucket_split (bucket opt) (fr_nth opt) l0 r0 = (l1, r1)
    \<and> (if fr_bit opt then Bucket_store r1 c = (r2, ok) \<and> l2 = l1
        else Bucket_store l1 c = (l2, ok) \<and> r2 = r1)
    \<and> splitAndStore rt c opt =
        Inr (rt\<lparr>root := replace_at (path opt) (Node (Leaf l2) (Leaf r2)) (root rt)\<rparr>, ok)"
proof -
  define l0 where "l0 = \<lparr>capacity = bucketSize rt, prefix = fr_prefix opt @ ''0'', store = [], refreshed = None\<rparr>"
  define r0 where "r0 = \<lparr>capacity = bucketSize rt, prefix = fr_prefix opt @ ''1'', store = [], refreshed = None\<rparr>"
  have nl: "new_Bucket (bucketSize rt) (fr_prefix opt @ ''0'') = Inr l0"
    and nr: "new_Bucket (bucketSize rt) (fr_prefix opt @ ''1'') = Inr r0"
    using k by (simp_all add: new_Bucket_def l0_def r0_def)
  obtain l1 r1 where sp: "Bucket_split (bucket opt) (fr_nth opt) l0 r0 = (l1, r1)"
    by (cases "Bucket_split (bucket opt) (fr_nth opt) l0 r0")
  show ?thesis
  proof (cases "fr_bit opt")
    case True
    obtain r2 ok where s: "Bucket_store r1 c = (r2, ok)" by (cases "Bucket_store r1 c")
    have "splitAndStore rt c opt =
        Inr (rt\<lparr>root := replace_at (path opt) (Node (Leaf l1) (Leaf r2)) (root rt)\<rparr>, ok)"
      using nl nr sp s True by (simp add: splitAndStore_def)
    with sp s True show ?thesis
      by (intro exI[of _ l0] exI[of _ r0] exI[of _ l1] exI[of _ r1] exI[of _ l1] exI[of _ r2] exI[of _ ok])
         (simp add: l0_def r0_def)
  next
    case False
    obtain l2 ok where s: "Bucket_store l1 c = (l2, ok)" by (cases "Bucket_store l1 c")
    have "splitAndStore rt c opt =
        Inr (rt\<lparr>root := replace_at (path opt) (Node (Leaf l2) (Leaf r1)) (root rt)\<rparr>, ok)"
      using nl nr sp s False by (simp add: splitAndStore_def)
    with sp s False show ?thesis
      by (intro exI[of _ l0] exI[of _ r0] exI[of _ l1] exI[of _ r1] exI[of _ l2] exI[of _ r1] exI[of _ ok])
         (simp add: l0_def r0_def)
  qed
qed



lemma store_steps:
  assumes ti: "tree_inv [] (root rt)" and k: "0 < bucketSize rt"
    and ne: "\<not> Id_equal (contact_id c) (rt_id rt)"
  shows "\<exists>rtm. tree_inv [] (root rtm) \<and> endpoints rtm = endpoints rt \<and> rt_id rtm = rt_id rt
      \<and> bucketSize rtm = bucketSize rt
      \<and> set (contacts_of (root rtm)) \<subseteq> set (contacts_of (root rt)) \<union> {c}
      \<and> (\<forall>c' \<in> set (contacts_of (root rtm)). Id_equal (contact_id c') (contact_id c) \<longrightarrow> c' = c)
      \<and> ((\<exists>old. RoutingTable_store rt c = Inr (rtm, Some old)
              \<and> set (contacts_of (root rtm)) \<subseteq> set (contacts_of (root rt)))
          \<or> RoutingTable_store rt c =
               (case addRemoveEndpoint rtm (endpoint c) (Some (contact_id c)) of
                  Inl e \<Rightarrow> Inl e | Inr rt2 \<Rightarrow> Inr (rt2, None)))"
proof -
  let ?i = "contact_id c"
  from findBucket_inv[OF ti, of ?i] obtain res where
    fb: "findBucket rt ?i = Some res"
    and fl: "find_leaf ?i 0 (root rt) = (fr_nth res, bucket res)"
    and pth: "path res = map (Id_at ?i) [0..<fr_nth res]"
    and rep: "\<forall>new. replace_at (path res) new (root rt) = update_leaf ?i 0 new (root rt)"
    and rep2: "\<forall>new b'. replace_at (path res) new (update_leaf ?i 0 (Leaf b') (root rt))
                    = update_leaf ?i 0 new (root rt)"
    and bit: "fr_bit res = Id_at ?i (fr_nth res)" and nb: "fr_nth res < BIT_SIZE"
    and li: "tree_inv (path res) (Leaf (bucket res))" and op: "on_path (path res) ?i"
    and len: "length (path res) = fr_nth res"
    and sb: "set (store (bucket res)) \<subseteq> set (contacts_of (root rt))" by blast
  obtain b1 ok where bs: "Bucket_store (bucket res) c = (b1, ok)" by (cases "Bucket_store (bucket res) c")
  note bp = Bucket_store_props[OF bs]
  have d: "distinct_ids (store (bucket res))" using li by simp
  define rt1 where "rt1 = rt\<lparr>root := update_leaf ?i 0 (Leaf b1) (root rt)\<rparr>"
  have rt1_eq: "rt\<lparr>root := replace_at (path res) (Leaf b1) (root rt)\<rparr> = rt1" using rep by (simp add: rt1_def)
  have li1: "tree_inv (path res) (Leaf b1)"
    using li bp(1,2) bp(3)[OF d] op by auto
  then have "tree_inv (map (Id_at ?i) [0..<fr_nth res]) (Leaf b1)" using pth by simp
  from update_root_inv[OF ti fl this] have ti1: "tree_inv [] (root rt1)" by (simp add: rt1_def)
  have sub1: "set (contacts_of (root rt1)) \<subseteq> set (contacts_of (root rt)) \<union> {c}"
    using update_leaf_contacts[of ?i 0 "Leaf b1" "root rt"] bp(1) sb by (auto simp: rt1_def)
  have uniq1: "\<forall>c' \<in> set (contacts_of (root rt1)). Id_equal (contact_id c') ?i \<longrightarrow> c' = c"
  proof (intro ballI impI)
    fix c' assume c': "c' \<in> set (contacts_of (root rt1))" and e: "Id_equal (contact_id c') ?i"
    from c' have "c' \<in> set (contacts_of (update_leaf ?i 0 (Leaf b1) (root rt)))" by (simp add: rt1_def)
    from update_root_equal[OF ti this e] have "c' \<in> set (store b1)" by simp
    with bp(4)[OF d] e show "c' = c" by blast
  qed
  have st: "RoutingTable_store rt c =
     (if ok then (case addRemoveEndpoint rt1 (endpoint c) (Some ?i) of
                     Inl e \<Rightarrow> Inl e | Inr rt2 \<Rightarrow> Inr (rt2, None))
      else if \<not> allowSplit res \<or> fr_nth res + 1 = BIT_SIZE then Inr (rt1, Bucket_oldest b1)
      else (case splitAndStore rt1 c (res\<lparr>bucket := b1\<rparr>) of
              Inl e \<Rightarrow> Inl e
            | Inr (rt2, _) \<Rightarrow>
                (case addRemoveEndpoint rt2 (endpoint c) (Some ?i) of
                   Inl e \<Rightarrow> Inl e | Inr rt3 \<Rightarrow> Inr (rt3, None))))"
    using ne fb bs rt1_eq by (simp add: RoutingTable_store_def Let_def)
  show ?thesis
  proof (cases ok)
    case True
    with st have "RoutingTable_store rt c =
               (case addRemoveEndpoint rt1 (endpoint c) (Some ?i) of
                  Inl e \<Rightarrow> Inl e | Inr rt2 \<Rightarrow> Inr (rt2, None))" by simp
    with ti1 sub1 uniq1 show ?thesis
      by (intro exI[of _ rt1]) (simp add: rt1_def)
  next
    case nok: False
    with bs have bs': "Bucket_store (bucket res) c = (b1, False)" by simp
    from Bucket_store_refused[OF bs'] sb have sub1': "set (contacts_of (root rt1)) \<subseteq> set (contacts_of (root rt))"
      using update_leaf_contacts[of ?i 0 "Leaf b1" "root rt"] by (auto simp: rt1_def)
    show ?thesis
    proof (cases "\<not> allowSplit res \<or> fr_nth res + 1 = BIT_SIZE")
      case True
      have "0 < capacity b1" using li1 by simp
      from Bucket_oldest_full[OF bp(5)[OF nok] this] obtain old where "Bucket_oldest b1 = Some old" by blast
      with st nok True have "RoutingTable_store rt c = Inr (rt1, Some old)" by simp
      with ti1 sub1 sub1' uniq1 show ?thesis
        by (intro exI[of _ rt1]) (simp add: rt1_def)
    next
      case False
      then have nlt: "length (path res) + 1 < BIT_SIZE" using nb len by simp
      have k1: "0 < bucketSize rt1" using k by (simp add: rt1_def)
      from splitAndStore_eq[OF k1, of "res\<lparr>bucket := b1\<rparr>" c] obtain l0 r0 l1 r1 l2 r2 ok2 where
        l0: "store l0 = []" "capacity l0 = bucketSize rt1" and r0: "store r0 = []" "capacity r0 = bucketSize rt1"
        and sp: "Bucket_split b1 (fr_nth res) l0 r0 = (l1, r1)"
        and s2: "if fr_bit res then Bucket_store r1 c = (r2, ok2) \<and> l2 = l1
                 else Bucket_store l1 c = (l2, ok2) \<and> r2 = r1"
        and sas: "splitAndStore rt1 c (res\<lparr>bucket := b1\<rparr>) =
            Inr (rt1\<lparr>root := replace_at (path res) (Node (Leaf l2) (Leaf r2)) (root rt1)\<rparr>, ok2)"
        by auto
      define node where "node = Node (Leaf l2) (Leaf r2)"
      define rtm where "rtm = rt\<lparr>root := update_leaf ?i 0 node (root rt)\<rparr>"
      have rtm_eq: "rt1\<lparr>root := replace_at (path res) (Node (Leaf l2) (Leaf r2)) (root rt1)\<rparr> = rtm"
        using rep2 by (simp add: rt1_def rtm_def node_def)
      from sp len have sp': "Bucket_split b1 (length (path res)) l0 r0 = (l1, r1)" by simp
      from s2 bit len have s2': "if Id_at ?i (length (path res)) then Bucket_store r1 c = (r2, ok2) \<and> l2 = l1
                 else Bucket_store l1 c = (l2, ok2) \<and> r2 = r1" by simp
      note sn = split_node_inv[OF li1 nlt k1 op l0 r0 sp' s2']
      have "tree_inv (map (Id_at ?i) [0..<fr_nth res]) node" using sn(1) pth by (simp add: node_def)
      from update_root_inv[OF ti fl this] have tim: "tree_inv [] (root rtm)" by (simp add: rtm_def)
      have cn: "set (contacts_of node) \<subseteq> set (store b1) \<union> {c}" using sn(2) by (simp add: node_def)
      have b1sub: "set (store b1) \<subseteq> set (contacts_of (root rt))" using Bucket_store_refused[OF bs'] sb by auto
      have subm: "set (contacts_of (root rtm)) \<subseteq> set (contacts_of (root rt)) \<union> {c}"
        using update_leaf_contacts[of ?i 0 node "root rt"] cn b1sub by (auto simp: rtm_def)
      have uniqm: "\<forall>c' \<in> set (contacts_of (root rtm)). Id_equal (contact_id c') ?i \<longrightarrow> c' = c"
      proof (intro ballI impI)
        fix c' assume c': "c' \<in> set (contacts_of (root rtm))" and e: "Id_equal (contact_id c') ?i"
        from c' have "c' \<in> set (contacts_of (update_leaf ?i 0 node (root rt)))" by (simp add: rtm_def)
        from update_root_equal[OF ti this e] cn have "c' \<in> set (store b1) \<or> c' = c" by auto
        with bp(4)[OF d] e show "c' = c" by blast
      qed
      have "RoutingTable_store rt c =
               (case addRemoveEndpoint rtm (endpoint c) (Some ?i) of
                  Inl e \<Rightarrow> Inl e | Inr rt2 \<Rightarrow> Inr (rt2, None))"
        using st nok False sas rtm_eq by simp
      with tim subm uniqm show ?thesis
        by (intro exI[of _ rtm]) (simp add: rtm_def)
    qed
  qed
qed



lemma store_props:
  assumes inv: "rt_inv rt"
  shows "\<exists>rt' r. RoutingTable_store rt c = Inr (rt', r) \<and> rt_inv rt' \<and> rt_id rt' = rt_id rt
     \<and> set (contacts_of (root rt')) \<subseteq> set (contacts_of (root rt)) \<union> {c}
     \<and> (\<forall>c' \<in> set (contacts_of (root rt')). Id_equal (contact_id c') (contact_id c) \<longrightarrow> c' = c)
     \<and> (\<not> Id_equal (contact_id c) (rt_id rt) \<longrightarrow> r = None \<longrightarrow>
          endpoints rt' (JSON_stringify (endpoint c)) = Some (contact_id c) \<and>
          (\<forall>old. endpoints rt (JSON_stringify (endpoint c)) = Some old \<longrightarrow>
                 \<not> Id_equal old (contact_id c) \<longrightarrow>
                 (\<forall>c' \<in> set (contacts_of (root rt')). \<not> Id_equal (contact_id c') old)))"
proof -
  from inv have k: "0 < bucketSize rt" and ti: "tree_inv [] (root rt)"
    and nl: "\<forall>c' \<in> set (contacts_of (root rt)). \<not> Id_equal (contact_id c') (rt_id rt)"
    and ei: "endpoints_inv rt" by (simp_all add: rt_inv_def)
  show ?thesis
  proof (cases "Id_equal (contact_id c) (rt_id rt)")
    case True
    then have s: "RoutingTable_store rt c = Inr (rt, None)" by (simp add: RoutingTable_store_def)
    have "\<forall>c' \<in> set (contacts_of (root rt)). Id_equal (contact_id c') (contact_id c) \<longrightarrow> c' = c"
    proof (intro ballI impI)
      fix c' assume c': "c' \<in> set (contacts_of (root rt))" and e: "Id_equal (contact_id c') (contact_id c)"
      from Id_equal_trans[OF e True] nl c' show "c' = c" by blast
    qed
    with s inv True show ?thesis by auto
  next
    case ne: False
    from store_steps[OF ti k ne] obtain rtm where
      tim: "tree_inv [] (root rtm)" and em: "endpoints rtm = endpoints rt" and idm: "rt_id rtm = rt_id rt"
      and km: "bucketSize rtm = bucketSize rt"
      and subm: "set (contacts_of (root rtm)) \<subseteq> set (contacts_of (root rt)) \<union> {c}"
      and uniqm: "\<forall>c' \<in> set (contacts_of (root rtm)). Id_equal (contact_id c') (contact_id c) \<longrightarrow> c' = c"
      and alt: "(\<exists>old. RoutingTable_store rt c = Inr (rtm, Some old)
              \<and> set (contacts_of (root rtm)) \<subseteq> set (contacts_of (root rt)))
          \<or> RoutingTable_store rt c =
               (case addRemoveEndpoint rtm (endpoint c) (Some (contact_id c)) of
                  Inl e \<Rightarrow> Inl e | Inr rt2 \<Rightarrow> Inr (rt2, None))" by blast
    from alt show ?thesis
    proof
      assume "\<exists>old. RoutingTable_store rt c = Inr (rtm, Some old)
              \<and> set (contacts_of (root rtm)) \<subseteq> set (contacts_of (root rt))"
      then obtain old where s: "RoutingTable_store rt c = Inr (rtm, Some old)"
        and sub: "set (contacts_of (root rtm)) \<subseteq> set (contacts_of (root rt))" by blast
      have nlm: "\<forall>c' \<in> set (contacts_of (root rtm)). \<not> Id_equal (contact_id c') (rt_id rtm)"
        using nl sub idm by auto
      have eim: "endpoints_inv rtm" using ei sub em unfolding endpoints_inv_def by auto
      have "rt_inv rtm" using k km tim nlm eim by (simp add: rt_inv_def)
      with s idm subm uniqm show ?thesis by auto
    next
      assume s: "RoutingTable_store rt c =
               (case addRemoveEndpoint rtm (endpoint c) (Some (contact_id c)) of
                  Inl e \<Rightarrow> Inl e | Inr rt2 \<Rightarrow> Inr (rt2, None))"
      let ?k = "JSON_stringify (endpoint c)"
      from addRemoveEndpoint_Some[OF tim, of "endpoint c" "contact_id c"] obtain rt' where
        a: "addRemoveEndpoint rtm (endpoint c) (Some (contact_id c)) = Inr rt'"
        and ti': "tree_inv [] (root rt')"
        and sub': "set (contacts_of (root rt')) \<subseteq> set (contacts_of (root rtm))"
        and id': "rt_id rt' = rt_id rtm" and k': "bucketSize rt' = bucketSize rtm"
        and e': "endpoints rt' = (endpoints rtm)(?k \<mapsto> contact_id c)"
        and gone: "\<forall>old. endpoints rtm ?k = Some old \<longrightarrow> \<not> Id_equal old (contact_id c) \<longrightarrow>
           (\<forall>c' \<in> set (contacts_of (root rt')). \<not> Id_equal (contact_id c') old)" by blast
      have s': "RoutingTable_store rt c = Inr (rt', None)" using s a by simp
      have ib: "endpoints_inv_but rtm ?k (contact_id c)" unfolding endpoints_inv_but_def
      proof
        fix c' assume c': "c' \<in> set (contacts_of (root rtm))"
        show "(JSON_stringify (endpoint c') = ?k \<and> Id_equal (contact_id c') (contact_id c)) \<or>
          (\<exists>j. endpoints rtm (JSON_stringify (endpoint c')) = Some j \<and> Id_equal j (contact_id c'))"
        proof (cases "c' = c")
          case True then show ?thesis by (simp add: Id_equal_refl)
        next
          case False
          with c' subm have "c' \<in> set (contacts_of (root rt))" by auto
          with ei em show ?thesis unfolding endpoints_inv_def by auto
        qed
      qed
      from addRemoveEndpoint_Some_inv[OF tim ib a] have ei': "endpoints_inv rt'" .
      have nl': "\<forall>c' \<in> set (contacts_of (root rt')). \<not> Id_equal (contact_id c') (rt_id rt')"
      proof
        fix c' assume "c' \<in> set (contacts_of (root rt'))"
        with sub' subm have "c' \<in> set (contacts_of (root rt)) \<or> c' = c" by auto
        with nl ne id' idm show "\<not> Id_equal (contact_id c') (rt_id rt')" by auto
      qed
      have inv': "rt_inv rt'" using k k' km ti' nl' ei' by (simp add: rt_inv_def)
      have subf: "set (contacts_of (root rt')) \<subseteq> set (contacts_of (root rt)) \<union> {c}" using sub' subm by auto
      have uniq': "\<forall>c' \<in> set (contacts_of (root rt')). Id_equal (contact_id c') (contact_id c) \<longrightarrow> c' = c"
        using uniqm sub' by auto
      have reg: "endpoints rt' ?k = Some (contact_id c)" using e' by simp
      from s' inv' id' idm subf uniq' reg gone em show ?thesis by auto
    qed
  qed
qed

lemma remove_props:
  assumes inv: "rt_inv rt"
  shows "\<exists>rt' r. RoutingTable_remove rt a = Inr (rt', r) \<and> rt_inv rt' \<and> rt_id rt' = rt_id rt
     \<and> set (contacts_of (root rt')) \<subseteq> set (contacts_of (root rt))"
proof -
  from inv have k: "0 < bucketSize rt" and ti: "tree_inv [] (root rt)"
    and nl: "\<forall>c' \<in> set (contacts_of (root rt)). \<not> Id_equal (contact_id c') (rt_id rt)"
    and ei: "endpoints_inv rt" by (simp_all add: rt_inv_def)
  define i where "i = (case a of ByContact c \<Rightarrow> contact_id c | ById i' \<Rightarrow> i')"
  from removeId_props[OF ti, of i] obtain rt1 c where
    rm: "removeId rt i = Inr (rt1, c)" and ti1: "tree_inv [] (root rt1)"
    and sub1: "set (contacts_of (root rt1)) \<subseteq> set (contacts_of (root rt))"
    and same: "endpoints rt1 = endpoints rt" "rt_id rt1 = rt_id rt" "bucketSize rt1 = bucketSize rt"
    by blast
  have ei1: "endpoints_inv rt1" using ei sub1 same(1) unfolding endpoints_inv_def by auto
  have inv1: "rt_inv rt1" using k same ti1 nl sub1 ei1 by (auto simp: rt_inv_def)
  define ep where "ep = (case c of Some c' \<Rightarrow> Some (endpoint c')
                        | None \<Rightarrow> (case a of ByContact c' \<Rightarrow> Some (endpoint c') | ById _ \<Rightarrow> None))"
  have r: "RoutingTable_remove rt a =
      (case ep of
         Some e \<Rightarrow> if ep_truthy e
                   then (case addRemoveEndpoint rt1 e None of
                           Inl err \<Rightarrow> Inl err | Inr rt2 \<Rightarrow> Inr (rt2, c \<noteq> None))
                   else Inr (rt1, c \<noteq> None)
       | None \<Rightarrow> Inr (rt1, c \<noteq> None))"
    using rm by (simp add: RoutingTable_remove_def Let_def i_def ep_def del: not_None_eq)
  show ?thesis
  proof (cases "\<exists>e. ep = Some e \<and> ep_truthy e")
    case False
    with r have "RoutingTable_remove rt a = Inr (rt1, c \<noteq> None)" by (cases ep) auto
    with inv1 same sub1 show ?thesis by auto
  next
    case True
    then obtain e where e: "ep = Some e" "ep_truthy e" by blast
    from addRemoveEndpoint_None[OF ti1, of e] obtain rt2 where
      a2: "addRemoveEndpoint rt1 e None = Inr rt2" and ti2: "tree_inv [] (root rt2)"
      and sub2: "set (contacts_of (root rt2)) \<subseteq> set (contacts_of (root rt1))"
      and same2: "rt_id rt2 = rt_id rt1" "bucketSize rt2 = bucketSize rt1"
      and ei2: "endpoints_inv rt1 \<longrightarrow> endpoints_inv rt2" by blast
    have "RoutingTable_remove rt a = Inr (rt2, c \<noteq> None)" using r e a2 by simp
    moreover have "rt_inv rt2" using k same same2 ti2 nl sub1 sub2 ei1 ei2 by (auto simp: rt_inv_def)
    ultimately show ?thesis using same same2 sub1 sub2 by auto
  qed
qed

lemma storeSome_props:
  "rt_inv rt \<Longrightarrow> \<exists>rt'. storeSome rt cs = Inr rt' \<and> rt_inv rt' \<and> rt_id rt' = rt_id rt"
proof (induction cs arbitrary: rt)
  case Nil then show ?case by simp
next
  case (Cons c cs)
  from store_props[OF Cons.prems, of c] obtain rt1 r where
    s: "RoutingTable_store rt c = Inr (rt1, r)" "rt_inv rt1" "rt_id rt1 = rt_id rt" by blast
  from Cons.IH[OF s(2)] s show ?case by auto
qed

lemma apply_op_props:
  assumes "rt_inv (routes d)"
  shows "\<exists>d'. apply_op d op = Inr d' \<and> rt_inv (routes d') \<and> rt_id (routes d') = rt_id (routes d)"
proof (cases op)
  case (OpStore c)
  from store_props[OF assms, of c] obtain rt1 r where
    "RoutingTable_store (routes d) c = Inr (rt1, r)" "rt_inv rt1" "rt_id rt1 = rt_id (routes d)" by blast
  with OpStore show ?thesis by (simp add: apply_op_def)
next
  case (OpStoreSome cs)
  from storeSome_props[OF assms, of cs] obtain rt1 where
    "storeSome (routes d) cs = Inr rt1" "rt_inv rt1" "rt_id rt1 = rt_id (routes d)" by blast
  with OpStoreSome show ?thesis by (simp add: apply_op_def)
next
  case (OpRemove a)
  from remove_props[OF assms, of a] obtain rt1 r where
    "RoutingTable_remove (routes d) a = Inr (rt1, r)" "rt_inv rt1" "rt_id rt1 = rt_id (routes d)" by blast
  with OpRemove show ?thesis by (simp add: apply_op_def)
next
  case (OpDiscovered i ep)
  from store_props[OF assms, of "new_Contact i ep"] obtain rt1 r where
    s: "RoutingTable_store (routes d) (new_Contact i ep) = Inr (rt1, r)" "rt_inv rt1"
       "rt_id rt1 = rt_id (routes d)" by blast
  then have "\<exists>d1 reqs. Dht_discovered d i ep = Inr (d1, reqs) \<and> routes d1 = rt1"
    by (cases r) (auto simp: Dht_discovered_def Let_def)
  with OpDiscovered s show ?thesis by (auto simp: apply_op_def)
next
  case (OpPong old c p)
  show ?thesis
  proof (cases "case p of PongError \<Rightarrow> True | Pong remoteId \<Rightarrow> \<not> Id_equal remoteId (contact_id c)")
    case False
    then have "Dht_onPong d old c p = Inr (d\<lparr>pendingContact := None\<rparr>)"
      by (simp add: Dht_onPong_def Let_def)
    with OpPong assms show ?thesis by (simp add: apply_op_def)
  next
    case True
    from remove_props[OF assms, of "ByContact old"] obtain rt1 r1 where
      r: "RoutingTable_remove (routes d) (ByContact old) = Inr (rt1, r1)" "rt_inv rt1"
         "rt_id rt1 = rt_id (routes d)" by blast
    from store_props[OF r(2), of c] obtain rt2 r2 where
      s: "RoutingTable_store rt1 c = Inr (rt2, r2)" "rt_inv rt2" "rt_id rt2 = rt_id rt1" by blast
    from True r s have "Dht_onPong d old c p = Inr (d\<lparr>pendingContact := None, routes := rt2\<rparr>)"
      by (simp add: Dht_onPong_def Let_def)
    with OpPong s r show ?thesis by (simp add: apply_op_def)
  qed
qed

lemma run_ops_props:
  "rt_inv (routes d) \<Longrightarrow>
     \<exists>d'. run_ops d ops = Inr d' \<and> rt_inv (routes d') \<and> rt_id (routes d') = rt_id (routes d)"
proof (induction ops arbitrary: d)
  case Nil then show ?case by simp
next
  case (Cons op ops)
  from apply_op_props[OF Cons.prems, of op] obtain d1 where
    a: "apply_op d op = Inr d1" "rt_inv (routes d1)" "rt_id (routes d1) = rt_id (routes d)" by blast
  from Cons.IH[OF a(2)] a show ?case by auto
qed

lemma new_Dht_inv:
  "new_Dht localId os = Inr d \<Longrightarrow> rt_inv (routes d) \<and> rt_id (routes d) = localId"
  by (auto simp: new_Dht_def new_RoutingTable_def new_Bucket_def rt_inv_def endpoints_inv_def
        BIT_SIZE_def SIZE_def split: if_splits sum.splits)


section \<open>The local id and the endpoints in the table\<close>

lemma contains_id_iff:
  "contains_id rt x = (\<exists>c \<in> set (contacts_of (root rt)). Id_equal (contact_id c) x)"
  by (simp add: contains_id_def list_ex_iff)

lemma store_into_leaf:
  assumes "root rt = Leaf b" and "\<not> Id_equal (contact_id c) (rt_id rt)"
    and "Bucket_store b c = (b1, True)"
  shows "RoutingTable_store rt c =
      (case addRemoveEndpoint (rt\<lparr>root := Leaf b1\<rparr>) (endpoint c) (Some (contact_id c)) of
         Inl e \<Rightarrow> Inl e | Inr rt2 \<Rightarrow> Inr (rt2, None))"
  using assms by (simp add: RoutingTable_store_def findBucket_def BIT_SIZE_def SIZE_def)

lemma store_leaf_refused:
  assumes "root rt = Leaf b" and "\<not> Id_equal (contact_id c) (rt_id rt)"
    and "Bucket_store b c = (b1, False)"
    and "Id_at (contact_id c) 0 \<noteq> Id_at (rt_id rt) 0"
  shows "RoutingTable_store rt c = Inr (rt\<lparr>root := Leaf b1\<rparr>, Bucket_oldest b1)"
  using assms by (simp add: RoutingTable_store_def findBucket_def BIT_SIZE_def SIZE_def)

lemma register_fresh_endpoint:
  "endpoints rt (JSON_stringify ep) = None \<Longrightarrow>
   addRemoveEndpoint rt ep (Some i) = Inr (rt\<lparr>endpoints := (endpoints rt)(JSON_stringify ep \<mapsto> i)\<rparr>)"
  by (simp add: addRemoveEndpoint_def Let_def)

text \<open>
  Claim C6.  \<open>store(c)\<close> of a contact whose id equals the local id returns \<open>null\<close> and
  leaves the table, tree and endpoint map, as it was.  From a node as its constructor
  leaves it, every sequence of \<open>store\<close>, \<open>storeSome\<close>, \<open>remove\<close>, \<open>_discovered\<close>
  and ping callbacks runs without an exception and ends in a table that holds no contact
  whose id equals the local id.
\<close>

theorem local_id_never_stored:
  "(Id_equal (contact_id c) (rt_id rt) \<longrightarrow> RoutingTable_store rt c = Inr (rt, None)) \<and>
   (new_Dht localId os = Inr d0 \<longrightarrow>
      (\<exists>d. run_ops d0 ops = Inr d \<and> rt_id (routes d) = localId \<and> \<not> contains_id (routes d) localId))"
proof (intro conjI impI)
  assume "Id_equal (contact_id c) (rt_id rt)"
  then show "RoutingTable_store rt c = Inr (rt, None)" by (simp add: RoutingTable_store_def)
next
  assume n: "new_Dht localId os = Inr d0"
  from new_Dht_inv[OF n] have i0: "rt_inv (routes d0)" and l0: "rt_id (routes d0) = localId" by simp_all
  from run_ops_props[OF i0, of ops] obtain d where
    r: "run_ops d0 ops = Inr d" "rt_inv (routes d)" "rt_id (routes d) = rt_id (routes d0)" by blast
  from r(2) have "\<forall>c' \<in> set (contacts_of (root (routes d))). \<not> Id_equal (contact_id c') (rt_id (routes d))"
    by (simp add: rt_inv_def)
  with r l0 show "\<exists>d. run_ops d0 ops = Inr d \<and> rt_id (routes d) = localId \<and> \<not> contains_id (routes d) localId"
    by (auto simp: contains_id_iff)
qed

theorem local_id_never_stored_witness:
  "Id_equal (contact_id (ex_contact 0 0 ''z'')) (rt_id ex_table_near) \<and>
   RoutingTable_store ex_table_near (ex_contact 0 0 ''z'') = Inr (ex_table_near, None) \<and>
   new_Dht Id_zero ex_opts = Inr ex_dht_fresh \<and>
   (\<exists>d. run_ops ex_dht_fresh [OpDiscovered Id_zero (Endpoint ''z'' True),
                                OpStore (ex_contact 128 1 ''a''),
                                OpStoreSome [ex_contact 0 0 ''z'', ex_contact 128 2 ''b'']] = Inr d \<and>
        rt_id (routes d) = Id_zero \<and> \<not> contains_id (routes d) Id_zero)"
proof -
  have h1: "Id_equal (contact_id (ex_contact 0 0 ''z'')) (rt_id ex_table_near)" by code_simp
  from local_id_never_stored[of "ex_contact 0 0 ''z''" ex_table_near Id_zero ex_opts ex_dht_fresh
      "[OpDiscovered Id_zero (Endpoint ''z'' True), OpStore (ex_contact 128 1 ''a''),
        OpStoreSome [ex_contact 0 0 ''z'', ex_contact 128 2 ''b'']]"]
    h1 new_Dht_ex
  show ?thesis by simp
qed

text \<open>
  Claim C5, as the code has it.  Take a node as its constructor leaves it and run any
  sequence of the operations above; it runs without an exception.  In the table reached,
  two contacts with the same serialised endpoint have equal ids.  Let then \<open>x\<close> and
  \<open>y\<close> be contacts with the same serialised endpoint and different ids, the id of
  \<open>y\<close> not being the local id, and store \<open>x\<close> and then \<open>y\<close>: both calls return, and
  if the second returns \<open>null\<close> (it does not answer with the oldest contact of a full
  bucket that may not split), the endpoint is registered to the id of \<open>y\<close> and the
  table holds no contact with the id of \<open>x\<close>.
\<close>

theorem endpoint_rebinding:
  assumes n: "new_Dht localId os = Inr d0"
    and key: "JSON_stringify (endpoint x) = JSON_stringify (endpoint y)"
    and xy: "\<not> Id_equal (contact_id x) (contact_id y)"
    and yl: "\<not> Id_equal (contact_id y) localId"
  shows "\<exists>d rt1 r1 rt2 r2. run_ops d0 ops = Inr d \<and>
       (\<forall>c1 \<in> set (contacts_of (root (routes d))). \<forall>c2 \<in> set (contacts_of (root (routes d))).
           JSON_stringify (endpoint c1) = JSON_stringify (endpoint c2) \<longrightarrow>
           Id_equal (contact_id c1) (contact_id c2)) \<and>
       RoutingTable_store (routes d) x = Inr (rt1, r1) \<and>
       RoutingTable_store rt1 y = Inr (rt2, r2) \<and>
       (r2 = None \<longrightarrow>
          endpoints rt2 (JSON_stringify (endpoint y)) = Some (contact_id y) \<and>
          \<not> contains_id rt2 (contact_id x))"
proof -
  from new_Dht_inv[OF n] have i0: "rt_inv (routes d0)" and l0: "rt_id (routes d0) = localId" by simp_all
  from run_ops_props[OF i0, of ops] obtain d where
    r: "run_ops d0 ops = Inr d" "rt_inv (routes d)" "rt_id (routes d) = rt_id (routes d0)" by blast
  have i4: "\<forall>c1 \<in> set (contacts_of (root (routes d))). \<forall>c2 \<in> set (contacts_of (root (routes d))).
           JSON_stringify (endpoint c1) = JSON_stringify (endpoint c2) \<longrightarrow>
           Id_equal (contact_id c1) (contact_id c2)"
  proof (intro ballI impI)
    fix c1 c2 assume c1: "c1 \<in> set (contacts_of (root (routes d)))"
      and c2: "c2 \<in> set (contacts_of (root (routes d)))"
      and k: "JSON_stringify (endpoint c1) = JSON_stringify (endpoint c2)"
    from r(2) have ei: "endpoints_inv (routes d)" by (simp add: rt_inv_def)
    from ei c1 obtain j1 where j1: "endpoints (routes d) (JSON_stringify (endpoint c1)) = Some j1"
      "Id_equal j1 (contact_id c1)" unfolding endpoints_inv_def by blast
    from ei c2 obtain j2 where j2: "endpoints (routes d) (JSON_stringify (endpoint c2)) = Some j2"
      "Id_equal j2 (contact_id c2)" unfolding endpoints_inv_def by blast
    from j1(1) j2(1) k have "j1 = j2" by simp
    with j1(2) j2(2) show "Id_equal (contact_id c1) (contact_id c2)"
      using Id_equal_sym Id_equal_trans by blast
  qed
  from store_props[OF r(2), of x] obtain rt1 r1 where
    s1: "RoutingTable_store (routes d) x = Inr (rt1, r1)" and inv1: "rt_inv rt1"
    and id1: "rt_id rt1 = rt_id (routes d)"
    and uniq1: "\<forall>c' \<in> set (contacts_of (root rt1)). Id_equal (contact_id c') (contact_id x) \<longrightarrow> c' = x"
    by blast
  from store_props[OF inv1, of y] obtain rt2 r2 where
    s2: "RoutingTable_store rt1 y = Inr (rt2, r2)"
    and sub2: "set (contacts_of (root rt2)) \<subseteq> set (contacts_of (root rt1)) \<union> {y}"
    and reg: "\<not> Id_equal (contact_id y) (rt_id rt1) \<longrightarrow> r2 = None \<longrightarrow>
          endpoints rt2 (JSON_stringify (endpoint y)) = Some (contact_id y) \<and>
          (\<forall>old. endpoints rt1 (JSON_stringify (endpoint y)) = Some old \<longrightarrow>
                 \<not> Id_equal old (contact_id y) \<longrightarrow>
                 (\<forall>c' \<in> set (contacts_of (root rt2)). \<not> Id_equal (contact_id c') old))"
    by blast
  have yl1: "\<not> Id_equal (contact_id y) (rt_id rt1)" using yl id1 r(3) l0 by simp
  have fin: "r2 = None \<longrightarrow>
          endpoints rt2 (JSON_stringify (endpoint y)) = Some (contact_id y) \<and>
          \<not> contains_id rt2 (contact_id x)"
  proof
    assume r2: "r2 = None"
    from reg yl1 r2 have e2: "endpoints rt2 (JSON_stringify (endpoint y)) = Some (contact_id y)"
      and gone: "\<forall>old. endpoints rt1 (JSON_stringify (endpoint y)) = Some old \<longrightarrow>
                 \<not> Id_equal old (contact_id y) \<longrightarrow>
                 (\<forall>c' \<in> set (contacts_of (root rt2)). \<not> Id_equal (contact_id c') old)" by simp_all
    have "\<not> contains_id rt2 (contact_id x)"
    proof
      assume "contains_id rt2 (contact_id x)"
      then obtain c' where c': "c' \<in> set (contacts_of (root rt2))" "Id_equal (contact_id c') (contact_id x)"
        by (auto simp: contains_id_iff)
      have "c' \<noteq> y" using c'(2) xy Id_equal_sym by blast
      with c'(1) sub2 have c1: "c' \<in> set (contacts_of (root rt1))" by auto
      with uniq1 c'(2) have cx: "c' = x" by blast
      from inv1 have "endpoints_inv rt1" by (simp add: rt_inv_def)
      with c1 cx obtain j where j: "endpoints rt1 (JSON_stringify (endpoint x)) = Some j"
        "Id_equal j (contact_id x)" unfolding endpoints_inv_def by blast
      have nj: "\<not> Id_equal j (contact_id y)"
      proof
        assume "Id_equal j (contact_id y)"
        with j(2) have "Id_equal (contact_id x) (contact_id y)" using Id_equal_sym Id_equal_trans by blast
        with xy show False ..
      qed
      from gone j(1) key nj c'(1) have "\<not> Id_equal (contact_id c') j" by simp
      with cx j(2) Id_equal_sym show False by blast
    qed
    with e2 show "endpoints rt2 (JSON_stringify (endpoint y)) = Some (contact_id y) \<and>
          \<not> contains_id rt2 (contact_id x)" by simp
  qed
  from r(1) i4 s1 s2 fin show ?thesis by blast
qed

theorem endpoint_rebinding_witness:
  "new_Dht Id_zero ex_opts = Inr ex_dht_fresh \<and>
   JSON_stringify (endpoint (ex_contact 128 1 ''a'')) = JSON_stringify (endpoint (ex_contact 128 2 ''a'')) \<and>
   \<not> Id_equal (contact_id (ex_contact 128 1 ''a'')) (contact_id (ex_contact 128 2 ''a'')) \<and>
   \<not> Id_equal (contact_id (ex_contact 128 2 ''a'')) Id_zero \<and>
   (\<exists>d rt1 r1 rt2 r2. run_ops ex_dht_fresh [OpStore (ex_contact 0 1 ''c'')] = Inr d \<and>
       (\<forall>c1 \<in> set (contacts_of (root (routes d))). \<forall>c2 \<in> set (contacts_of (root (routes d))).
           JSON_stringify (endpoint c1) = JSON_stringify (endpoint c2) \<longrightarrow>
           Id_equal (contact_id c1) (contact_id c2)) \<and>
       RoutingTable_store (routes d) (ex_contact 128 1 ''a'') = Inr (rt1, r1) \<and>
       RoutingTable_store rt1 (ex_contact 128 2 ''a'') = Inr (rt2, r2) \<and>
       (r2 = None \<longrightarrow>
          endpoints rt2 (JSON_stringify (endpoint (ex_contact 128 2 ''a''))) =
            Some (contact_id (ex_contact 128 2 ''a'')) \<and>
          \<not> contains_id rt2 (contact_id (ex_contact 128 1 ''a''))))"
proof -
  have k: "JSON_stringify (endpoint (ex_contact 128 1 ''a'')) = JSON_stringify (endpoint (ex_contact 128 2 ''a''))"
    by (simp add: ex_contact_def new_Contact_def)
  have d: "\<not> Id_equal (contact_id (ex_contact 128 1 ''a'')) (contact_id (ex_contact 128 2 ''a''))" by code_simp
  have l: "\<not> Id_equal (contact_id (ex_contact 128 2 ''a'')) Id_zero" by code_simp
  from endpoint_rebinding[OF new_Dht_ex k d l, of "[OpStore (ex_contact 0 1 ''c'')]"] new_Dht_ex k d l
  show ?thesis by blast
qed

text \<open>
  Claim C5 as stated fails when the second \<open>store\<close> is turned away.  On the table of
  node \<open>0x00\<dots>00\<close> with buckets of one contact, \<open>0x80\<dots>01\<close> is stored at the endpoint
  \<open>a\<close>; storing \<open>0x80\<dots>02\<close> at the same endpoint finds the bucket full and not
  allowed to split, returns the oldest contact, and leaves the table as it was:
  \<open>0x80\<dots>01\<close> is still there, and the endpoint is still registered to it.
\<close>

theorem endpoint_rebinding_counterexample:
  "new_RoutingTable Id_zero 1 = Inr ex_table_empty \<and>
   RoutingTable_store ex_table_empty (ex_contact 128 1 ''a'') = Inr (ex_table_full, None) \<and>
   RoutingTable_store ex_table_full (ex_contact 128 2 ''a'') =
     Inr (ex_table_full, Some (ex_contact 128 1 ''a'')) \<and>
   JSON_stringify (endpoint (ex_contact 128 1 ''a'')) = JSON_stringify (endpoint (ex_contact 128 2 ''a'')) \<and>
   \<not> Id_equal (contact_id (ex_contact 128 1 ''a'')) (contact_id (ex_contact 128 2 ''a'')) \<and>
   contains_id ex_table_full (contact_id (ex_contact 128 1 ''a'')) \<and>
   endpoints ex_table_full (JSON_stringify (endpoint (ex_contact 128 2 ''a''))) =
     Some (contact_id (ex_contact 128 1 ''a''))"
proof -
  have n: "new_RoutingTable Id_zero 1 = Inr ex_table_empty"
    by (simp add: new_RoutingTable_def new_Bucket_def ex_table_empty_def)
  have r0: "root ex_table_empty = Leaf \<lparr>capacity = 1, prefix = [], store = [], refreshed = None\<rparr>"
    by (simp add: ex_table_empty_def)
  have ne1: "\<not> Id_equal (contact_id (ex_contact 128 1 ''a'')) (rt_id ex_table_empty)" by code_simp
  have b1: "Bucket_store \<lparr>capacity = 1, prefix = [], store = [], refreshed = None\<rparr> (ex_contact 128 1 ''a'')
      = (ex_bucket_full, True)" by code_simp
  have e0: "endpoints (ex_table_empty\<lparr>root := Leaf ex_bucket_full\<rparr>)
      (JSON_stringify (endpoint (ex_contact 128 1 ''a''))) = None"
    by (simp add: ex_table_empty_def)
  have s1: "RoutingTable_store ex_table_empty (ex_contact 128 1 ''a'') = Inr (ex_table_full, None)"
    unfolding store_into_leaf[OF r0 ne1 b1] register_fresh_endpoint[OF e0]
    by (simp add: ex_table_empty_def ex_table_full_def ex_contact_def new_Contact_def)
  have r1: "root ex_table_full = Leaf ex_bucket_full" by (simp add: ex_table_full_def)
  have ne2: "\<not> Id_equal (contact_id (ex_contact 128 2 ''a'')) (rt_id ex_table_full)" by code_simp
  have b2: "Bucket_store ex_bucket_full (ex_contact 128 2 ''a'') = (ex_bucket_full, False)" by code_simp
  have a2: "Id_at (contact_id (ex_contact 128 2 ''a'')) 0 \<noteq> Id_at (rt_id ex_table_full) 0" by code_simp
  have s2: "RoutingTable_store ex_table_full (ex_contact 128 2 ''a'') =
     Inr (ex_table_full, Some (ex_contact 128 1 ''a''))"
    unfolding store_leaf_refused[OF r1 ne2 b2 a2]
    by (simp add: ex_table_full_def ex_bucket_full_def Bucket_oldest_def)
  have k: "JSON_stringify (endpoint (ex_contact 128 1 ''a'')) = JSON_stringify (endpoint (ex_contact 128 2 ''a''))"
    by (simp add: ex_contact_def new_Contact_def)
  have d: "\<not> Id_equal (contact_id (ex_contact 128 1 ''a'')) (contact_id (ex_contact 128 2 ''a''))" by code_simp
  have c: "contains_id ex_table_full (contact_id (ex_contact 128 1 ''a''))" by code_simp
  have e: "endpoints ex_table_full (JSON_stringify (endpoint (ex_contact 128 2 ''a''))) =
     Some (contact_id (ex_contact 128 1 ''a''))"
    by (simp add: ex_table_full_def ex_contact_def new_Contact_def)
  from n s1 s2 k d c e show ?thesis by blast
qed


section \<open>Reading all subkeys\<close>

lemma discovered_cache:
  "Dht_discovered d i ep = Inr (d1, reqs) \<Longrightarrow> cache d1 = cache d"
  by (auto simp: Dht_discovered_def Let_def split: sum.splits option.splits if_splits)

lemma discovered_total:
  assumes "rt_inv (routes d)"
  shows "\<exists>d1 reqs. Dht_discovered d i ep = Inr (d1, reqs)"
proof -
  from store_props[OF assms, of "new_Contact i ep"] obtain rt1 r where
    "RoutingTable_store (routes d) (new_Contact i ep) = Inr (rt1, r)" by blast
  then show ?thesis by (cases r) (auto simp: Dht_discovered_def Let_def)
qed

lemma Id_toString_names:
  "Id_toString x \<noteq> ''hasOwnProperty''" "Id_toString x \<noteq> ''__proto__''"
  using Id_toString_not_builtin[of x] by (auto simp: Object_prototype_names_def)

lemma getall_cached:
  assumes c: "cache d (Id_toString k) = Some m" and m: "m (Id_toString k) = Some e"
    and t: "truthy (value e)"
    and x: "expire e = TNull \<or> (\<exists>t v. expire e = TDateStr t v)"
    and h: "cache d ''hasOwnProperty'' = None" "m ''hasOwnProperty'' = None"
  shows "Dht_getall sha1 d (KeyId k) now =
           Inr (ServedFromCache (Dht_expireCache d now) (PValue (value e)))"
proof -
  have f: "Dht_findFromCache d (Id_toString k) (SubStr (Id_toString k)) now =
      Inr (Dht_expireCache d now, Hit e)"
    using findFromCache_Hit[OF h(1) c h(2), of "SubStr (Id_toString k)" e now] m x by simp
  from t have nu: "value e \<noteq> Undefined"
    by auto
  have p: "Dht_peek sha1 d (KeyId k) SubNull now = Inr (Dht_expireCache d now, PValue (value e))"
    using nu by (simp add: Dht_peek_def Id_fromKey_def f cached_value_def)
  show ?thesis
    using t by (simp add: Dht_getall_def Dht_multiget_def Id_fromKey_def p)
qed

text \<open>
  Claim C2. \<open>getall(k)\<close> does not always go to the network. A node that has just been
  built receives one store request for the key \<open>k\<close> with the subkey \<open>k\<close> itself (what a
  remote \<open>set(k, 'world')\<close> sends); the request is handled without an exception and leaves
  one cache entry. \<open>getall(k)\<close> on the resulting node, at any time, is then answered from
  the cache with the single value \<open>'world'\<close>, and \<open>_iterativeFindValue\<close> is not started:
  \<open>multiget(k, null)\<close> peeks with the subkey \<open>null\<close>, for which \<open>peek\<close> reads the subkey
  \<open>k\<close>, and the test \<open>val && subkey !== undefined\<close> holds for \<open>null\<close>.
\<close>

theorem getall_served_from_cache:
  "\<exists>d1 reqs. Dht_onStore ex_dht_fresh (Endpoint ''a'' True) ex_store_payload now = Inr (d1, reqs) \<and>
     Dht_getall sha1_hello d1 (KeyId (ex_id 0 2)) now' =
       Inr (ServedFromCache (Dht_expireCache d1 now') (PValue (Str ''world'')))"
proof -
  let ?h = "Id_toString (ex_id 0 2)"
  from new_Dht_inv[OF new_Dht_ex] have inv: "rt_inv (routes ex_dht_fresh)"
    by simp
  from discovered_total[OF inv, of "ex_id 0 1" "Endpoint ''a'' True"] obtain d0 reqs where
    dis: "Dht_discovered ex_dht_fresh (ex_id 0 1) (Endpoint ''a'' True) = Inr (d0, reqs)"
    by blast
  from discovered_cache[OF dis] have c0: "cache d0 = Map.empty"
    by (simp add: ex_dht_fresh_def)
  define e where "e = \<lparr>value = Str ''world'', expire = TDateStr now (Num 86410000), refresh = now\<rparr>"
  define d1 where "d1 = d0\<lparr>cache := (cache d0)(?h \<mapsto> [?h \<mapsto> e])\<rparr>"
  have tg: "store_target (cache d0) ?h = Some Map.empty"
    using c0 Id_toString_not_builtin[of "ex_id 0 2"] by (simp add: store_target_def get_prop_def)
  have st: "Dht_storeToCache d0 ?h (SubId (ex_id 0 2)) (Str ''world'') (Num 86410000) now = Inr d1"
    using storeToCache_single[of "SubId (ex_id 0 2)" d0 ?h Map.empty "Num 86410000" "Str ''world''" now]
      tg Id_toString_names[of "ex_id 0 2"]
    by (simp add: d1_def e_def)
  have os: "Dht_onStore ex_dht_fresh (Endpoint ''a'' True) ex_store_payload now = Inr (d1, reqs)"
    using dis st by (simp add: Dht_onStore_def ex_store_payload_def Let_def)
  have c: "cache d1 ?h = Some [?h \<mapsto> e]"
    by (simp add: d1_def)
  have m: "[?h \<mapsto> e] ?h = Some e"
    by simp
  have t: "truthy (value e)"
    by (simp add: e_def)
  have x: "expire e = TNull \<or> (\<exists>t v. expire e = TDateStr t v)"
    by (simp add: e_def)
  have h1: "cache d1 ''hasOwnProperty'' = None"
    using c0 Id_toString_names[of "ex_id 0 2"] by (simp add: d1_def)
  have h2: "[?h \<mapsto> e] ''hasOwnProperty'' = None"
    using Id_toString_names[of "ex_id 0 2"] by simp
  from getall_cached[OF c m t x h1 h2, of sha1_hello now']
  have "Dht_getall sha1_hello d1 (KeyId (ex_id 0 2)) now' =
       Inr (ServedFromCache (Dht_expireCache d1 now') (PValue (Str ''world'')))"
    by (simp add: e_def)
  with os show ?thesis
    by blast
qed

end
